theory Spec2Isabelle
  imports Main "HOL-Library.AList"
begin

section \<open>Runtime values and the store\<close>

text \<open>
  The serializer walks live values of the host language. A value is either a primitive,
  carried by value, or a reference to an object of the store, compared by identity.
  Numbers are integers plus the one number that differs from itself.
\<close>

type_synonym addr = nat

datatype prim = PUndefined | PNull | PBool bool | PNum int | PNaN | PStr string

datatype val = Prim prim | Ref addr

text \<open>
  An own attribute as \<open>Object.getOwnPropertyDescriptor\<close> reports it: a data attribute
  (value, writable, enumerable, configurable) or an accessor attribute
  (get, set, enumerable, configurable), where an absent getter or setter is \<open>undefined\<close>.
\<close>

datatype jsprop = Data val bool bool bool | Accessor val val bool bool

type_synonym props = "(string \<times> jsprop) list"

text \<open>
  A callable: \<open>fsource\<close> is what \<open>toString()\<close> returns; \<open>fclosure\<close> is the mapping that the
  \<open>__closure\<close> accessor returns when invoked (\<open>None\<close> when the callable has no such
  attribute); \<open>fprops\<close> are its own attributes in the order of
  \<open>Object.getOwnPropertyNames\<close>; \<open>fbound\<close> records, for a callable made by the decoder,
  the code fragment that was evaluated and the arguments it was applied to.
\<close>

record fn =
  fsource :: string
  fclosure :: "(string \<times> val) list option"
  fprops :: props
  fbound :: "(string \<times> val list) option"

datatype obj =
    ArrayObj "val list"
  | FunObj fn
  | DateObj string
  | RegExpObj string
  | PlainObj val props

type_synonym heap = "obj list"

text \<open>
  The collaborators that are not part of the core: the registry of builtins (lookup and
  reverse lookup) and the prototype that an object literal receives.
\<close>

record host =
  getNameOfBuiltin :: "val \<Rightarrow> string option"
  getBuiltinByName :: "string \<Rightarrow> val option"
  objectPrototype :: val

text \<open>The operator \<open>===\<close>: identity on references, equality on primitives, never on NaN.\<close>

fun strict_eq :: "val \<Rightarrow> val \<Rightarrow> bool" where
  "strict_eq (Prim PNaN) _ = False"
| "strict_eq _ (Prim PNaN) = False"
| "strict_eq x y = (x = y)"

text \<open>Truthiness, as tested by \<open>if (x)\<close>.\<close>

fun truthy :: "val \<Rightarrow> bool" where
  "truthy (Ref _) = True"
| "truthy (Prim PUndefined) = False"
| "truthy (Prim PNull) = False"
| "truthy (Prim (PBool b)) = b"
| "truthy (Prim (PNum n)) = (n \<noteq> 0)"
| "truthy (Prim PNaN) = False"
| "truthy (Prim (PStr s)) = (s \<noteq> [])"

section \<open>The serialized graph\<close>

text \<open>
  A serialized attribute descriptor. Every field but \<open>configurable\<close> and \<open>enumerable\<close> may
  be absent.
\<close>

record sdesc =
  sd_get :: "nat option"
  sd_set :: "nat option"
  sd_value :: "nat option"
  sd_configurable :: bool
  sd_writable :: "bool option"
  sd_enumerable :: bool

type_synonym srefs = "(string \<times> nat) list"
type_synonym sdescs = "(string \<times> sdesc) list"

text \<open>
  A content record, one constructor for each value of its \<open>kind\<close> field; \<open>KOther k\<close> is a
  record whose kind \<open>k\<close> is none of the seven.
\<close>

datatype content =
    KPrimitive prim
  | KArray "nat list"
  | KObject nat srefs sdescs
  | KFunction string nat nat srefs sdescs
  | KBuiltin string
  | KDate string
  | KRegex string
  | KOther string

text \<open>
  The class \<open>SerializedGraph\<close>. A slot of the content array is \<open>None\<close> while it holds
  \<open>undefined\<close>.
\<close>

record graph =
  indexMap :: "(val \<times> nat) list"
  rootIndex :: int
  contentArray :: "content option list"

definition new_graph :: graph where
  "new_graph = \<lparr>indexMap = [], rootIndex = - 1, contentArray = []\<rparr>"

record wire =
  wire_root :: int
  wire_data :: "content option list"

definition fromJSON :: "wire \<Rightarrow> graph" where
  "fromJSON json = new_graph\<lparr>rootIndex := wire_root json, contentArray := wire_data json\<rparr>"

definition toJSON :: "graph \<Rightarrow> wire" where
  "toJSON g = \<lparr>wire_root = rootIndex g, wire_data = contentArray g\<rparr>"

section \<open>The encoder\<close>

text \<open>The search loop at the head of \<open>add\<close>.\<close>

fun find_element :: "(val \<times> nat) list \<Rightarrow> val \<Rightarrow> nat option" where
  "find_element [] v = None"
| "find_element ((element, index) # rest) v =
     (if strict_eq element v then Some index else find_element rest v)"

text \<open>
  Reading \<open>value.prototype\<close> of a callable: the value of its own data attribute. Getters
  are not run: an accessor reads as undefined, and so does an absent attribute.
\<close>

fun own_value :: "props \<Rightarrow> string \<Rightarrow> val" where
  "own_value ps k = (case map_of ps k of Some (Data v _ _ _) \<Rightarrow> v | _ \<Rightarrow> Prim PUndefined)"

text \<open>The object that invoking the closure accessor returns: a fresh object literal.\<close>

definition snapshot_object :: "host \<Rightarrow> (string \<times> val) list \<Rightarrow> obj" where
  "snapshot_object h bs = PlainObj (objectPrototype h) (map (\<lambda>(k, v). (k, Data v True True True)) bs)"

text \<open>
  The two halves of the bookkeeping of \<open>add\<close>: reserving the next index for a value and
  registering the pair, and storing the content computed for that index.
\<close>

definition reserve :: "graph \<Rightarrow> val \<Rightarrow> graph" where
  "reserve g v =
     g\<lparr>contentArray := contentArray g @ [None],
       indexMap := indexMap g @ [(v, length (contentArray g))]\<rparr>"

definition fill :: "graph \<Rightarrow> nat \<Rightarrow> content \<Rightarrow> graph" where
  "fill g index c = g\<lparr>contentArray := (contentArray g)[index := Some c]\<rparr>"

text \<open>
  \<open>add\<close>, the private \<open>serialize\<close> (here \<open>serialize_value\<close>), \<open>value.map(v => this.add(v))\<close>
  (here \<open>add_each\<close>), \<open>serializeFunction\<close>, \<open>serializeObject\<close>, the statement
  \<open>if (x) serializedDesc.f = this.add(x)\<close> (here \<open>add_truthy\<close>), and \<open>serializeProperties\<close>
  with the body of its loop (\<open>serializeProperty\<close>). The first argument after the host is
  the depth of nested calls of \<open>add\<close> that is still allowed; \<open>None\<close> means that it was
  exceeded or that a reference points outside the store. The records \<open>refs\<close> and
  \<open>descriptions\<close> are association lists that store a name whatever it is; in the
  language they are object literals, on which storing a name that the prototype of object
  literals defines as read-only or with a setter (as \<open>__proto__\<close>) does not create an
  attribute.
\<close>

function (sequential)
    add :: "host \<Rightarrow> nat \<Rightarrow> heap \<Rightarrow> graph \<Rightarrow> val \<Rightarrow> (nat \<times> heap \<times> graph) option"
and serialize_value :: "host \<Rightarrow> nat \<Rightarrow> heap \<Rightarrow> graph \<Rightarrow> val \<Rightarrow> (content \<times> heap \<times> graph) option"
and add_each :: "host \<Rightarrow> nat \<Rightarrow> heap \<Rightarrow> graph \<Rightarrow> val list \<Rightarrow> (nat list \<times> heap \<times> graph) option"
and serializeFunction :: "host \<Rightarrow> nat \<Rightarrow> heap \<Rightarrow> graph \<Rightarrow> fn \<Rightarrow> (content \<times> heap \<times> graph) option"
and serializeObject ::
  "host \<Rightarrow> nat \<Rightarrow> heap \<Rightarrow> graph \<Rightarrow> val \<Rightarrow> props \<Rightarrow> (content \<times> heap \<times> graph) option"
and add_truthy :: "host \<Rightarrow> nat \<Rightarrow> heap \<Rightarrow> graph \<Rightarrow> val \<Rightarrow> (nat option \<times> heap \<times> graph) option"
and serializeProperty ::
  "host \<Rightarrow> nat \<Rightarrow> heap \<Rightarrow> graph \<Rightarrow> string \<Rightarrow> jsprop \<Rightarrow> srefs \<Rightarrow> sdescs \<Rightarrow>
   (srefs \<times> sdescs \<times> heap \<times> graph) option"
and serializeProperties ::
  "host \<Rightarrow> nat \<Rightarrow> heap \<Rightarrow> graph \<Rightarrow> props \<Rightarrow> srefs \<Rightarrow> sdescs \<Rightarrow>
   (srefs \<times> sdescs \<times> heap \<times> graph) option"
where
  "add h 0 H g v =
     (case find_element (indexMap g) v of
        Some index \<Rightarrow> Some (index, H, g)
      | None \<Rightarrow> None)"
| "add h (Suc n) H g v =
     (case find_element (indexMap g) v of
        Some index \<Rightarrow> Some (index, H, g)
      | None \<Rightarrow>
          (case serialize_value h n H (reserve g v) v of
             None \<Rightarrow> None
           | Some (c, H2, g2) \<Rightarrow>
               Some (length (contentArray g), H2, fill g2 (length (contentArray g)) c)))"
| "serialize_value h n H g v =
     (case getNameOfBuiltin h v of
        Some builtinName \<Rightarrow> Some (KBuiltin builtinName, H, g)
      | None \<Rightarrow>
          (case v of
             Prim p \<Rightarrow> Some (KPrimitive p, H, g)
           | Ref a \<Rightarrow>
               if a < length H then
                 (case H ! a of
                    ArrayObj vs \<Rightarrow>
                      (case add_each h n H g vs of
                         None \<Rightarrow> None
                       | Some (refs, H1, g1) \<Rightarrow> Some (KArray refs, H1, g1))
                  | FunObj f \<Rightarrow> serializeFunction h n H g f
                  | DateObj s \<Rightarrow> Some (KDate s, H, g)
                  | RegExpObj s \<Rightarrow> Some (KRegex s, H, g)
                  | PlainObj proto ps \<Rightarrow> serializeObject h n H g proto ps)
               else None))"
| "add_each h n H g [] = Some ([], H, g)"
| "add_each h n H g (v # vs) =
     (case add h n H g v of
        None \<Rightarrow> None
      | Some (i, H1, g1) \<Rightarrow>
          (case add_each h n H1 g1 vs of
             None \<Rightarrow> None
           | Some (is, H2, g2) \<Rightarrow> Some (i # is, H2, g2)))"
| "serializeFunction h n H g f =
     (case add h n (H @ [snapshot_object h (case fclosure f of None \<Rightarrow> [] | Some bs \<Rightarrow> bs)]) g
             (Ref (length H)) of
        None \<Rightarrow> None
      | Some (ci, H1, g1) \<Rightarrow>
          (case add h n H1 g1 (own_value (fprops f) ''prototype'') of
             None \<Rightarrow> None
           | Some (pi, H2, g2) \<Rightarrow>
               (case serializeProperties h n H2 g2 (fprops f) [] [] of
                  None \<Rightarrow> None
                | Some (refs, descs, H3, g3) \<Rightarrow>
                    Some (KFunction (fsource f) ci pi refs descs, H3, g3))))"
| "serializeObject h n H g proto ps =
     (case add h n H g proto of
        None \<Rightarrow> None
      | Some (pi, H1, g1) \<Rightarrow>
          (case serializeProperties h n H1 g1 ps [] [] of
             None \<Rightarrow> None
           | Some (refs, descs, H2, g2) \<Rightarrow> Some (KObject pi refs descs, H2, g2)))"
| "add_truthy h n H g x =
     (if truthy x then
        (case add h n H g x of
           None \<Rightarrow> None
         | Some (i, H1, g1) \<Rightarrow> Some (Some i, H1, g1))
      else Some (None, H, g))"
| "serializeProperty h n H g key (Data v w e c) refs descriptions =
     (if c \<and> w \<and> e then
        (case add h n H g v of
           None \<Rightarrow> None
         | Some (i, H1, g1) \<Rightarrow> Some (AList.update key i refs, descriptions, H1, g1))
      else
        (case add h n H g v of
           None \<Rightarrow> None
         | Some (i, H1, g1) \<Rightarrow>
             Some (refs,
                   AList.update key
                     \<lparr>sd_get = None, sd_set = None, sd_value = Some i,
                      sd_configurable = c, sd_writable = None, sd_enumerable = e\<rparr> descriptions,
                   H1, g1)))"
| "serializeProperty h n H g key (Accessor gt st e c) refs descriptions =
     (case add_truthy h n H g gt of
        None \<Rightarrow> None
      | Some (gi, H1, g1) \<Rightarrow>
          (case add_truthy h n H1 g1 st of
             None \<Rightarrow> None
           | Some (si, H2, g2) \<Rightarrow>
               Some (refs,
                     AList.update key
                       \<lparr>sd_get = gi, sd_set = si, sd_value = None,
                        sd_configurable = c, sd_writable = None, sd_enumerable = e\<rparr> descriptions,
                     H2, g2)))"
| "serializeProperties h n H g [] refs descriptions = Some (refs, descriptions, H, g)"
| "serializeProperties h n H g ((key, desc) # rest) refs descriptions =
     (if key = ''__closure'' then serializeProperties h n H g rest refs descriptions
      else
        (case serializeProperty h n H g key desc refs descriptions of
           None \<Rightarrow> None
         | Some (refs1, descriptions1, H1, g1) \<Rightarrow>
             serializeProperties h n H1 g1 rest refs1 descriptions1))"
  by pat_completeness auto

termination
  by (relation "inv_image (less_than <*lex*> less_than <*lex*> less_than)
       (\<lambda>x. case x of
          Inl (Inl (Inl (h, n, H, g, v))) \<Rightarrow> (n, 0::nat, 0::nat)
        | Inl (Inl (Inr (h, n, H, g, v))) \<Rightarrow> (n, 5, 0)
        | Inl (Inr (Inl (h, n, H, g, vs))) \<Rightarrow> (n, 3, length vs)
        | Inl (Inr (Inr (h, n, H, g, f))) \<Rightarrow> (n, 4, 0)
        | Inr (Inl (Inl (h, n, H, g, proto, ps))) \<Rightarrow> (n, 4, 0)
        | Inr (Inl (Inr (h, n, H, g, x))) \<Rightarrow> (n, 1, 0)
        | Inr (Inr (Inl (h, n, H, g, key, desc, refs, descriptions))) \<Rightarrow> (n, 2, 0)
        | Inr (Inr (Inr (h, n, H, g, ps, refs, descriptions))) \<Rightarrow> (n, 3, length ps))")
     auto

text \<open>The static \<open>serialize\<close>.\<close>

definition serialize :: "host \<Rightarrow> nat \<Rightarrow> heap \<Rightarrow> val \<Rightarrow> (heap \<times> graph) option" where
  "serialize h n H v =
     (case add h n H new_graph v of
        None \<Rightarrow> None
      | Some (i, H1, g) \<Rightarrow> Some (H1, g\<lparr>rootIndex := int i\<rparr>))"

section \<open>The decoder\<close>

datatype error = UnknownBuiltin string | UnrecognizedKind string | TypeError

text \<open>
  The result of a decoding step: \<open>None\<close> when the allowed depth of nested calls of \<open>get\<close>
  was exceeded, \<open>Some (Inl (e, H, g))\<close> when \<open>e\<close> was thrown, leaving the store \<open>H\<close> and the
  graph \<open>g\<close> behind (a throw undoes nothing), \<open>Some (Inr x)\<close> when \<open>x\<close> was returned.
\<close>

type_synonym 'a result = "((error \<times> heap \<times> graph) + 'a) option"

text \<open>The search loop at the head of \<open>get\<close>.\<close>

fun find_index :: "(val \<times> nat) list \<Rightarrow> nat \<Rightarrow> val option" where
  "find_index [] valueIndex = None"
| "find_index ((element, index) # rest) valueIndex =
     (if valueIndex = index then Some element else find_index rest valueIndex)"

definition push_index :: "graph \<Rightarrow> val \<Rightarrow> nat \<Rightarrow> graph" where
  "push_index g element index = g\<lparr>indexMap := indexMap g @ [(element, index)]\<rparr>"

text \<open>
  The own attributes of an object of the store. Attributes of arrays, dates and patterns
  are not represented.
\<close>

fun props_of :: "obj \<Rightarrow> props" where
  "props_of (PlainObj p ps) = ps"
| "props_of (FunObj f) = fprops f"
| "props_of _ = []"

fun with_props :: "obj \<Rightarrow> props \<Rightarrow> obj" where
  "with_props (PlainObj p _) ps = PlainObj p ps"
| "with_props (FunObj f) ps = FunObj (f\<lparr>fprops := ps\<rparr>)"
| "with_props ob ps = ob"

text \<open>
  The assignment \<open>target[key] = v\<close> in strict mode, on the own attributes of the target:
  a new name becomes a plain data attribute, a writable data attribute changes its value,
  a read-only one throws. Setters (own or inherited) are not followed; the decoder
  assigns only to names that are new or that an earlier assignment created.
\<close>

definition assign :: "props \<Rightarrow> string \<Rightarrow> val \<Rightarrow> error + props" where
  "assign ps key v =
     (case map_of ps key of
        None \<Rightarrow> Inr (ps @ [(key, Data v True True True)])
      | Some (Data _ w e c) \<Rightarrow>
          if w then Inr (AList.update key (Data v w e c) ps) else Inl TypeError
      | Some (Accessor _ _ _ _) \<Rightarrow> Inl TypeError)"

definition heap_assign :: "heap \<Rightarrow> addr \<Rightarrow> string \<Rightarrow> val \<Rightarrow> error + heap" where
  "heap_assign H a key v =
     (case assign (props_of (H ! a)) key v of
        Inl e \<Rightarrow> Inl e
      | Inr ps \<Rightarrow> Inr (H[a := with_props (H ! a) ps]))"

text \<open>
  The descriptor handed to \<open>Object.defineProperty\<close>: the copy \<open>{ ...desc }\<close> of a
  serialized descriptor, where a field that was not reconstructed still holds the index,
  a number.
\<close>

record pdesc =
  pd_get :: "val option"
  pd_set :: "val option"
  pd_value :: "val option"
  pd_configurable :: bool
  pd_writable :: "bool option"
  pd_enumerable :: bool

definition is_callable :: "heap \<Rightarrow> val \<Rightarrow> bool" where
  "is_callable H v =
     (case v of
        Ref a \<Rightarrow> a < length H \<and> (case H ! a of FunObj _ \<Rightarrow> True | _ \<Rightarrow> False)
      | Prim _ \<Rightarrow> False)"

definition is_accessor_desc :: "pdesc \<Rightarrow> bool" where
  "is_accessor_desc d = (pd_get d \<noteq> None \<or> pd_set d \<noteq> None)"

definition is_data_desc :: "pdesc \<Rightarrow> bool" where
  "is_data_desc d = (pd_value d \<noteq> None \<or> pd_writable d \<noteq> None)"

definition field_or :: "'a option \<Rightarrow> 'a \<Rightarrow> 'a" where
  "field_or x d = (case x of None \<Rightarrow> d | Some y \<Rightarrow> y)"

text \<open>The conversion of the descriptor object: a getter or setter is callable or undefined,
  and accessor fields do not mix with data fields.\<close>

definition descriptor_ok :: "heap \<Rightarrow> pdesc \<Rightarrow> bool" where
  "descriptor_ok H d =
     ((case pd_get d of None \<Rightarrow> True | Some gt \<Rightarrow> gt = Prim PUndefined \<or> is_callable H gt) \<and>
      (case pd_set d of None \<Rightarrow> True | Some st \<Rightarrow> st = Prim PUndefined \<or> is_callable H st) \<and>
      \<not> (is_accessor_desc d \<and> is_data_desc d))"

text \<open>
  Validation and application of a descriptor against the current own attribute of that
  name (\<open>None\<close> when there is none); the result \<open>None\<close> is a rejection.
\<close>

fun apply_descriptor :: "jsprop option \<Rightarrow> pdesc \<Rightarrow> jsprop option" where
  "apply_descriptor None d =
     Some (if is_accessor_desc d
           then Accessor (field_or (pd_get d) (Prim PUndefined)) (field_or (pd_set d) (Prim PUndefined))
                  (pd_enumerable d) (pd_configurable d)
           else Data (field_or (pd_value d) (Prim PUndefined)) (field_or (pd_writable d) False)
                  (pd_enumerable d) (pd_configurable d))"
| "apply_descriptor (Some (Data v w e c)) d =
     (if \<not> c \<and> (pd_configurable d \<or> pd_enumerable d \<noteq> e \<or> is_accessor_desc d \<or>
                (\<not> w \<and> (pd_writable d = Some True \<or>
                          (case pd_value d of None \<Rightarrow> False | Some v' \<Rightarrow> v' \<noteq> v))))
      then None
      else Some (if is_accessor_desc d
                 then Accessor (field_or (pd_get d) (Prim PUndefined))
                        (field_or (pd_set d) (Prim PUndefined)) (pd_enumerable d) (pd_configurable d)
                 else Data (field_or (pd_value d) v) (field_or (pd_writable d) w)
                        (pd_enumerable d) (pd_configurable d)))"
| "apply_descriptor (Some (Accessor gt st e c)) d =
     (if \<not> c \<and> (pd_configurable d \<or> pd_enumerable d \<noteq> e \<or> is_data_desc d \<or>
                (case pd_get d of None \<Rightarrow> False | Some gt' \<Rightarrow> gt' \<noteq> gt) \<or>
                (case pd_set d of None \<Rightarrow> False | Some st' \<Rightarrow> st' \<noteq> st))
      then None
      else Some (if is_data_desc d
                 then Data (field_or (pd_value d) (Prim PUndefined)) (field_or (pd_writable d) False)
                        (pd_enumerable d) (pd_configurable d)
                 else Accessor (field_or (pd_get d) gt) (field_or (pd_set d) st)
                        (pd_enumerable d) (pd_configurable d)))"

definition defineProperty :: "heap \<Rightarrow> addr \<Rightarrow> string \<Rightarrow> pdesc \<Rightarrow> error + heap" where
  "defineProperty H a key d =
     (if \<not> descriptor_ok H d then Inl TypeError
      else
        (case apply_descriptor (map_of (props_of (H ! a)) key) d of
           None \<Rightarrow> Inl TypeError
         | Some p \<Rightarrow> Inr (H[a := with_props (H ! a) (AList.update key p (props_of (H ! a)))])))"

text \<open>
  The names and values that \<open>for (let key in deserializedClosure)\<close> visits: the enumerable
  own attributes, in order. Inherited attributes are not followed, and a value behind a
  getter reads as undefined.
\<close>

fun enumerable_entries :: "props \<Rightarrow> (string \<times> val) list" where
  "enumerable_entries [] = []"
| "enumerable_entries ((key, Data v w e c) # rest) =
     (if e then (key, v) # enumerable_entries rest else enumerable_entries rest)"
| "enumerable_entries ((key, Accessor gt st e c) # rest) =
     (if e then (key, Prim PUndefined) # enumerable_entries rest else enumerable_entries rest)"

definition closure_entries :: "heap \<Rightarrow> val \<Rightarrow> (string \<times> val) list" where
  "closure_entries H v =
     (case v of
        Ref a \<Rightarrow> if a < length H then enumerable_entries (props_of (H ! a)) else []
      | Prim _ \<Rightarrow> [])"

text \<open>\<open>capturedVarKeys.join(", ")\<close> and the code fragment built around the source.\<close>

fun join :: "string list \<Rightarrow> string" where
  "join [] = []"
| "join [k] = k"
| "join (k # ks) = k @ '', '' @ join ks"

definition wrapper_code :: "string list \<Rightarrow> string \<Rightarrow> string" where
  "wrapper_code capturedVarKeys source =
     ''(function('' @ join capturedVarKeys @ '') { return ('' @ source @ ''); })''"

text \<open>
  The function expression that \<open>get\<close> returns for a function record. The attributes with
  which a function expression is born (\<open>length\<close>, \<open>name\<close>, \<open>prototype\<close>) are not represented.
\<close>

definition thunk :: fn where
  "thunk = \<lparr>fsource = ''function () { return thunk.__impl.apply(this, arguments); }'',
            fclosure = None, fprops = [], fbound = None\<rparr>"

text \<open>\<open>Object.create\<close> accepts an object or null.\<close>

fun object_or_null :: "val \<Rightarrow> bool" where
  "object_or_null (Ref _) = True"
| "object_or_null (Prim PNull) = True"
| "object_or_null _ = False"

text \<open>
  \<open>get\<close>; the loop over \<open>value.refs\<close> of an array record (\<open>get_refs\<close>); the statement
  \<open>if (desc.f) parsedDesc.f = this.get(desc.f)\<close> (\<open>parse_field\<close>); the two loops of
  \<open>deserializeProperties\<close> (\<open>deserializeRefs\<close>, \<open>deserializeDescriptions\<close>). Evaluating
  the code fragment and applying it is taken to yield a callable whose text is the
  source, born without attributes; the date and the pattern are taken to be the ones that
  the text denotes. None of the three is taken to throw, which parsing or evaluating a
  text that did not come from the encoder may do.
\<close>

function (sequential) get :: "host \<Rightarrow> nat \<Rightarrow> heap \<Rightarrow> graph \<Rightarrow> nat \<Rightarrow> (val \<times> heap \<times> graph) result"
and get_refs :: "host \<Rightarrow> nat \<Rightarrow> heap \<Rightarrow> graph \<Rightarrow> addr \<Rightarrow> nat list \<Rightarrow> (heap \<times> graph) result"
and parse_field :: "host \<Rightarrow> nat \<Rightarrow> heap \<Rightarrow> graph \<Rightarrow> nat option \<Rightarrow> (val option \<times> heap \<times> graph) result"
and deserializeRefs :: "host \<Rightarrow> nat \<Rightarrow> heap \<Rightarrow> graph \<Rightarrow> addr \<Rightarrow> srefs \<Rightarrow> (heap \<times> graph) result"
and deserializeDescriptions :: "host \<Rightarrow> nat \<Rightarrow> heap \<Rightarrow> graph \<Rightarrow> addr \<Rightarrow> sdescs \<Rightarrow> (heap \<times> graph) result"
and deserializeProperties ::
  "host \<Rightarrow> nat \<Rightarrow> heap \<Rightarrow> graph \<Rightarrow> srefs \<Rightarrow> sdescs \<Rightarrow> addr \<Rightarrow> (heap \<times> graph) result"
where
  "get h 0 H g valueIndex =
     (case find_index (indexMap g) valueIndex of
        Some element \<Rightarrow> Some (Inr (element, H, g))
      | None \<Rightarrow> None)"
| "get h (Suc n) H g valueIndex =
     (case find_index (indexMap g) valueIndex of
        Some element \<Rightarrow> Some (Inr (element, H, g))
      | None \<Rightarrow>
          if valueIndex < length (contentArray g) then
            (case contentArray g ! valueIndex of
               None \<Rightarrow> Some (Inl (TypeError, H, g))
             | Some (KPrimitive p) \<Rightarrow> Some (Inr (Prim p, H, push_index g (Prim p) valueIndex))
             | Some (KArray refs) \<Rightarrow>
                 (let results = length H;
                      H1 = H @ [ArrayObj []];
                      g1 = push_index g (Ref results) valueIndex
                  in case get_refs h n H1 g1 results refs of
                       None \<Rightarrow> None
                     | Some (Inl e) \<Rightarrow> Some (Inl e)
                     | Some (Inr (H2, g2)) \<Rightarrow> Some (Inr (Ref results, H2, g2)))
             | Some (KObject prototype refs descriptions) \<Rightarrow>
                 (case get h n H g prototype of
                    None \<Rightarrow> None
                  | Some (Inl e) \<Rightarrow> Some (Inl e)
                  | Some (Inr (proto, H1, g1)) \<Rightarrow>
                      if \<not> object_or_null proto then Some (Inl (TypeError, H1, g1))
                      else
                        (let results = length H1;
                             H2 = H1 @ [PlainObj proto []];
                             g2 = push_index g1 (Ref results) valueIndex
                         in case deserializeProperties h n H2 g2 refs descriptions results of
                              None \<Rightarrow> None
                            | Some (Inl e) \<Rightarrow> Some (Inl e)
                            | Some (Inr (H3, g3)) \<Rightarrow> Some (Inr (Ref results, H3, g3))))
             | Some (KFunction source closure prototype refs descriptions) \<Rightarrow>
                 (let th = length H;
                      H0 = H @ [FunObj thunk];
                      g0 = push_index g (Ref th) valueIndex
                  in case get h n H0 g0 closure of
                       None \<Rightarrow> None
                     | Some (Inl e) \<Rightarrow> Some (Inl e)
                     | Some (Inr (deserializedClosure, H1, g1)) \<Rightarrow>
                         (let captured = closure_entries H1 deserializedClosure;
                              capturedVarKeys = map fst captured;
                              capturedVarVals = map snd captured;
                              code = wrapper_code capturedVarKeys source;
                              impl = length H1;
                              H2 = H1 @ [FunObj \<lparr>fsource = source, fclosure = None, fprops = [],
                                                 fbound = Some (code, capturedVarVals)\<rparr>]
                          in case get h n H2 g1 prototype of
                               None \<Rightarrow> None
                             | Some (Inl e) \<Rightarrow> Some (Inl e)
                             | Some (Inr (proto, H3, g3)) \<Rightarrow>
                                 (case heap_assign H3 impl ''prototype'' proto of
                                    Inl e \<Rightarrow> Some (Inl (e, H3, g3))
                                  | Inr H4 \<Rightarrow>
                                      (case heap_assign H4 th ''__impl'' (Ref impl) of
                                         Inl e \<Rightarrow> Some (Inl (e, H4, g3))
                                       | Inr H5 \<Rightarrow>
                                           (case heap_assign H5 th ''prototype''
                                                   (own_value (props_of (H5 ! impl)) ''prototype'') of
                                              Inl e \<Rightarrow> Some (Inl (e, H5, g3))
                                            | Inr H6 \<Rightarrow>
                                                (case deserializeProperties h n H6 g3 refs descriptions th of
                                                   None \<Rightarrow> None
                                                 | Some (Inl e) \<Rightarrow> Some (Inl e)
                                                 | Some (Inr (H7, g7)) \<Rightarrow> Some (Inr (Ref th, H7, g7))))))))
             | Some (KBuiltin name) \<Rightarrow>
                 (case getBuiltinByName h name of
                    None \<Rightarrow> Some (Inl (UnknownBuiltin name, H, g))
                  | Some builtin \<Rightarrow> Some (Inr (builtin, H, push_index g builtin valueIndex)))
             | Some (KDate text) \<Rightarrow>
                 Some (Inr (Ref (length H), H @ [DateObj text], push_index g (Ref (length H)) valueIndex))
             | Some (KRegex text) \<Rightarrow>
                 Some (Inr (Ref (length H), H @ [RegExpObj text], push_index g (Ref (length H)) valueIndex))
             | Some (KOther kind) \<Rightarrow> Some (Inl (UnrecognizedKind kind, H, g)))
          else Some (Inl (TypeError, H, g)))"
| "get_refs h n H g results [] = Some (Inr (H, g))"
| "get_refs h n H g results (ref # refs) =
     (case get h n H g ref of
        None \<Rightarrow> None
      | Some (Inl e) \<Rightarrow> Some (Inl e)
      | Some (Inr (v, H1, g1)) \<Rightarrow>
          (case H1 ! results of
             ArrayObj vs \<Rightarrow> get_refs h n (H1[results := ArrayObj (vs @ [v])]) g1 results refs
           | _ \<Rightarrow> Some (Inl (TypeError, H1, g1))))"
| "parse_field h n H g None = Some (Inr (None, H, g))"
| "parse_field h n H g (Some i) =
     (if truthy (Prim (PNum (int i))) then
        (case get h n H g i of
           None \<Rightarrow> None
         | Some (Inl e) \<Rightarrow> Some (Inl e)
         | Some (Inr (v, H1, g1)) \<Rightarrow> Some (Inr (Some v, H1, g1)))
      else Some (Inr (Some (Prim (PNum (int i))), H, g)))"
| "deserializeRefs h n H g target [] = Some (Inr (H, g))"
| "deserializeRefs h n H g target ((key, i) # rest) =
     (case get h n H g i of
        None \<Rightarrow> None
      | Some (Inl e) \<Rightarrow> Some (Inl e)
      | Some (Inr (v, H1, g1)) \<Rightarrow>
          (case heap_assign H1 target key v of
             Inl e \<Rightarrow> Some (Inl (e, H1, g1))
           | Inr H2 \<Rightarrow> deserializeRefs h n H2 g1 target rest))"
| "deserializeDescriptions h n H g target [] = Some (Inr (H, g))"
| "deserializeDescriptions h n H g target ((key, desc) # rest) =
     (case parse_field h n H g (sd_get desc) of
        None \<Rightarrow> None
      | Some (Inl e) \<Rightarrow> Some (Inl e)
      | Some (Inr (gt, H1, g1)) \<Rightarrow>
          (case parse_field h n H1 g1 (sd_set desc) of
             None \<Rightarrow> None
           | Some (Inl e) \<Rightarrow> Some (Inl e)
           | Some (Inr (st, H2, g2)) \<Rightarrow>
               (case parse_field h n H2 g2 (sd_value desc) of
                  None \<Rightarrow> None
                | Some (Inl e) \<Rightarrow> Some (Inl e)
                | Some (Inr (vl, H3, g3)) \<Rightarrow>
                    (let parsedDesc =
                           \<lparr>pd_get = gt, pd_set = st, pd_value = vl,
                            pd_configurable = sd_configurable desc,
                            pd_writable = sd_writable desc,
                            pd_enumerable = sd_enumerable desc\<rparr>
                     in case defineProperty H3 target key parsedDesc of
                          Inl e \<Rightarrow> Some (Inl (e, H3, g3))
                        | Inr H4 \<Rightarrow> deserializeDescriptions h n H4 g3 target rest))))"
| "deserializeProperties h n H g refs descriptions target =
     (case deserializeRefs h n H g target refs of
        None \<Rightarrow> None
      | Some (Inl e) \<Rightarrow> Some (Inl e)
      | Some (Inr (H1, g1)) \<Rightarrow> deserializeDescriptions h n H1 g1 target descriptions)"
  by pat_completeness auto

termination
  by (relation "inv_image (less_than <*lex*> less_than <*lex*> less_than)
       (\<lambda>x. case x of
          Inl (Inl (h, n, H, g, i)) \<Rightarrow> (n, 0::nat, 0::nat)
        | Inl (Inr (Inl (h, n, H, g, results, refs))) \<Rightarrow> (n, 2, length refs)
        | Inl (Inr (Inr (h, n, H, g, field))) \<Rightarrow> (n, 1, 0)
        | Inr (Inl (h, n, H, g, target, refs)) \<Rightarrow> (n, 2, length refs)
        | Inr (Inr (Inl (h, n, H, g, target, descriptions))) \<Rightarrow> (n, 2, length descriptions)
        | Inr (Inr (Inr (h, n, H, g, refs, descriptions, target))) \<Rightarrow> (n, 3, 0))")
     auto

text \<open>The getter \<open>root\<close>. No entry of the content array has a negative position.\<close>

definition root :: "host \<Rightarrow> nat \<Rightarrow> heap \<Rightarrow> graph \<Rightarrow> (val \<times> heap \<times> graph) result" where
  "root h n H g =
     (if rootIndex g < 0 then Some (Inl (TypeError, H, g)) else get h n H g (nat (rootIndex g)))"

text \<open>
  The runs of the encoder that return, as a relation between the state before, the
  argument, the result and the state after. It carries no depth.
\<close>

inductive
    adds :: "host \<Rightarrow> heap \<Rightarrow> graph \<Rightarrow> val \<Rightarrow> nat \<Rightarrow> heap \<Rightarrow> graph \<Rightarrow> bool"
and sers :: "host \<Rightarrow> heap \<Rightarrow> graph \<Rightarrow> val \<Rightarrow> content \<Rightarrow> heap \<Rightarrow> graph \<Rightarrow> bool"
and eachs :: "host \<Rightarrow> heap \<Rightarrow> graph \<Rightarrow> val list \<Rightarrow> nat list \<Rightarrow> heap \<Rightarrow> graph \<Rightarrow> bool"
and funs :: "host \<Rightarrow> heap \<Rightarrow> graph \<Rightarrow> fn \<Rightarrow> content \<Rightarrow> heap \<Rightarrow> graph \<Rightarrow> bool"
and objs :: "host \<Rightarrow> heap \<Rightarrow> graph \<Rightarrow> val \<Rightarrow> props \<Rightarrow> content \<Rightarrow> heap \<Rightarrow> graph \<Rightarrow> bool"
and truthys :: "host \<Rightarrow> heap \<Rightarrow> graph \<Rightarrow> val \<Rightarrow> nat option \<Rightarrow> heap \<Rightarrow> graph \<Rightarrow> bool"
and prop1 ::
  "host \<Rightarrow> heap \<Rightarrow> graph \<Rightarrow> string \<Rightarrow> jsprop \<Rightarrow> srefs \<Rightarrow> sdescs \<Rightarrow> srefs \<Rightarrow> sdescs \<Rightarrow> heap \<Rightarrow> graph \<Rightarrow> bool"
and propss ::
  "host \<Rightarrow> heap \<Rightarrow> graph \<Rightarrow> props \<Rightarrow> srefs \<Rightarrow> sdescs \<Rightarrow> srefs \<Rightarrow> sdescs \<Rightarrow> heap \<Rightarrow> graph \<Rightarrow> bool"
for h :: host
where
  add_hit: "find_element (indexMap g) v = Some i \<Longrightarrow> adds h H g v i H g"
| add_miss:
    "find_element (indexMap g) v = None \<Longrightarrow> sers h H (reserve g v) v c H2 g2 \<Longrightarrow>
     adds h H g v (length (contentArray g)) H2 (fill g2 (length (contentArray g)) c)"
| ser_builtin: "getNameOfBuiltin h v = Some name \<Longrightarrow> sers h H g v (KBuiltin name) H g"
| ser_prim: "getNameOfBuiltin h (Prim p) = None \<Longrightarrow> sers h H g (Prim p) (KPrimitive p) H g"
| ser_array:
    "getNameOfBuiltin h (Ref a) = None \<Longrightarrow> a < length H \<Longrightarrow> H ! a = ArrayObj vs \<Longrightarrow>
     eachs h H g vs refs H1 g1 \<Longrightarrow> sers h H g (Ref a) (KArray refs) H1 g1"
| ser_fun:
    "getNameOfBuiltin h (Ref a) = None \<Longrightarrow> a < length H \<Longrightarrow> H ! a = FunObj f \<Longrightarrow>
     funs h H g f c H1 g1 \<Longrightarrow> sers h H g (Ref a) c H1 g1"
| ser_date:
    "getNameOfBuiltin h (Ref a) = None \<Longrightarrow> a < length H \<Longrightarrow> H ! a = DateObj s \<Longrightarrow>
     sers h H g (Ref a) (KDate s) H g"
| ser_regex:
    "getNameOfBuiltin h (Ref a) = None \<Longrightarrow> a < length H \<Longrightarrow> H ! a = RegExpObj s \<Longrightarrow>
     sers h H g (Ref a) (KRegex s) H g"
| ser_obj:
    "getNameOfBuiltin h (Ref a) = None \<Longrightarrow> a < length H \<Longrightarrow> H ! a = PlainObj proto ps \<Longrightarrow>
     objs h H g proto ps c H1 g1 \<Longrightarrow> sers h H g (Ref a) c H1 g1"
| each_nil: "eachs h H g [] [] H g"
| each_cons:
    "adds h H g v i H1 g1 \<Longrightarrow> eachs h H1 g1 vs is H2 g2 \<Longrightarrow>
     eachs h H g (v # vs) (i # is) H2 g2"
| fun_run:
    "adds h (H @ [snapshot_object h (case fclosure f of None \<Rightarrow> [] | Some bs \<Rightarrow> bs)]) g
        (Ref (length H)) ci H1 g1 \<Longrightarrow>
     adds h H1 g1 (own_value (fprops f) ''prototype'') pi H2 g2 \<Longrightarrow>
     propss h H2 g2 (fprops f) [] [] refs descs H3 g3 \<Longrightarrow>
     funs h H g f (KFunction (fsource f) ci pi refs descs) H3 g3"
| obj_run:
    "adds h H g proto pi H1 g1 \<Longrightarrow> propss h H1 g1 ps [] [] refs descs H2 g2 \<Longrightarrow>
     objs h H g proto ps (KObject pi refs descs) H2 g2"
| truthy_yes: "truthy x \<Longrightarrow> adds h H g x i H1 g1 \<Longrightarrow> truthys h H g x (Some i) H1 g1"
| truthy_no: "\<not> truthy x \<Longrightarrow> truthys h H g x None H g"
| prop_plain:
    "c \<and> w \<and> e \<Longrightarrow> adds h H g v i H1 g1 \<Longrightarrow>
     prop1 h H g key (Data v w e c) refs ds (AList.update key i refs) ds H1 g1"
| prop_fancy:
    "\<not> (c \<and> w \<and> e) \<Longrightarrow> adds h H g v i H1 g1 \<Longrightarrow>
     prop1 h H g key (Data v w e c) refs ds refs
       (AList.update key
          \<lparr>sd_get = None, sd_set = None, sd_value = Some i,
           sd_configurable = c, sd_writable = None, sd_enumerable = e\<rparr> ds) H1 g1"
| prop_accessor:
    "truthys h H g gt gi H1 g1 \<Longrightarrow> truthys h H1 g1 st si H2 g2 \<Longrightarrow>
     prop1 h H g key (Accessor gt st e c) refs ds refs
       (AList.update key
          \<lparr>sd_get = gi, sd_set = si, sd_value = None,
           sd_configurable = c, sd_writable = None, sd_enumerable = e\<rparr> ds) H2 g2"
| props_nil: "propss h H g [] refs ds refs ds H g"
| props_skip:
    "key = ''__closure'' \<Longrightarrow> propss h H g rest refs ds refs' ds' H' g' \<Longrightarrow>
     propss h H g ((key, desc) # rest) refs ds refs' ds' H' g'"
| props_cons:
    "key \<noteq> ''__closure'' \<Longrightarrow> prop1 h H g key desc refs ds refs1 ds1 H1 g1 \<Longrightarrow>
     propss h H1 g1 rest refs1 ds1 refs' ds' H' g' \<Longrightarrow>
     propss h H g ((key, desc) # rest) refs ds refs' ds' H' g'"

text \<open>The runs of the decoder that return a value, as a relation; it carries no depth.\<close>

inductive
    gets :: "host \<Rightarrow> heap \<Rightarrow> graph \<Rightarrow> nat \<Rightarrow> val \<Rightarrow> heap \<Rightarrow> graph \<Rightarrow> bool"
and refss :: "host \<Rightarrow> heap \<Rightarrow> graph \<Rightarrow> addr \<Rightarrow> nat list \<Rightarrow> heap \<Rightarrow> graph \<Rightarrow> bool"
and fields :: "host \<Rightarrow> heap \<Rightarrow> graph \<Rightarrow> nat option \<Rightarrow> val option \<Rightarrow> heap \<Rightarrow> graph \<Rightarrow> bool"
and drefs :: "host \<Rightarrow> heap \<Rightarrow> graph \<Rightarrow> addr \<Rightarrow> srefs \<Rightarrow> heap \<Rightarrow> graph \<Rightarrow> bool"
and ddescs :: "host \<Rightarrow> heap \<Rightarrow> graph \<Rightarrow> addr \<Rightarrow> sdescs \<Rightarrow> heap \<Rightarrow> graph \<Rightarrow> bool"
and dprops :: "host \<Rightarrow> heap \<Rightarrow> graph \<Rightarrow> srefs \<Rightarrow> sdescs \<Rightarrow> addr \<Rightarrow> heap \<Rightarrow> graph \<Rightarrow> bool"
for h :: host
where
  get_hit: "find_index (indexMap g) i = Some v \<Longrightarrow> gets h H g i v H g"
| get_prim:
    "find_index (indexMap g) i = None \<Longrightarrow> i < length (contentArray g) \<Longrightarrow>
     contentArray g ! i = Some (KPrimitive p) \<Longrightarrow>
     gets h H g i (Prim p) H (push_index g (Prim p) i)"
| get_array:
    "find_index (indexMap g) i = None \<Longrightarrow> i < length (contentArray g) \<Longrightarrow>
     contentArray g ! i = Some (KArray refs) \<Longrightarrow>
     refss h (H @ [ArrayObj []]) (push_index g (Ref (length H)) i) (length H) refs H2 g2 \<Longrightarrow>
     gets h H g i (Ref (length H)) H2 g2"
| get_object:
    "find_index (indexMap g) i = None \<Longrightarrow> i < length (contentArray g) \<Longrightarrow>
     contentArray g ! i = Some (KObject prototype refs ds) \<Longrightarrow>
     gets h H g prototype proto H1 g1 \<Longrightarrow> object_or_null proto \<Longrightarrow>
     dprops h (H1 @ [PlainObj proto []]) (push_index g1 (Ref (length H1)) i) refs ds (length H1)
       H3 g3 \<Longrightarrow>
     gets h H g i (Ref (length H1)) H3 g3"
| get_function:
    "find_index (indexMap g) i = None \<Longrightarrow> i < length (contentArray g) \<Longrightarrow>
     contentArray g ! i = Some (KFunction source closure prototype refs ds) \<Longrightarrow>
     gets h (H @ [FunObj thunk]) (push_index g (Ref (length H)) i) closure dc H1 g1 \<Longrightarrow>
     gets h (H1 @ [FunObj \<lparr>fsource = source, fclosure = None, fprops = [],
                    fbound = Some (wrapper_code (map fst (closure_entries H1 dc)) source,
                                   map snd (closure_entries H1 dc))\<rparr>])
       g1 prototype proto H3 g3 \<Longrightarrow>
     heap_assign H3 (length H1) ''prototype'' proto = Inr H4 \<Longrightarrow>
     heap_assign H4 (length H) ''__impl'' (Ref (length H1)) = Inr H5 \<Longrightarrow>
     heap_assign H5 (length H) ''prototype''
       (own_value (props_of (H5 ! length H1)) ''prototype'') = Inr H6 \<Longrightarrow>
     dprops h H6 g3 refs ds (length H) H7 g7 \<Longrightarrow>
     gets h H g i (Ref (length H)) H7 g7"
| get_builtin:
    "find_index (indexMap g) i = None \<Longrightarrow> i < length (contentArray g) \<Longrightarrow>
     contentArray g ! i = Some (KBuiltin name) \<Longrightarrow> getBuiltinByName h name = Some builtin \<Longrightarrow>
     gets h H g i builtin H (push_index g builtin i)"
| get_date:
    "find_index (indexMap g) i = None \<Longrightarrow> i < length (contentArray g) \<Longrightarrow>
     contentArray g ! i = Some (KDate text) \<Longrightarrow>
     gets h H g i (Ref (length H)) (H @ [DateObj text]) (push_index g (Ref (length H)) i)"
| get_regex:
    "find_index (indexMap g) i = None \<Longrightarrow> i < length (contentArray g) \<Longrightarrow>
     contentArray g ! i = Some (KRegex text) \<Longrightarrow>
     gets h H g i (Ref (length H)) (H @ [RegExpObj text]) (push_index g (Ref (length H)) i)"
| refs_nil: "refss h H g results [] H g"
| refs_cons:
    "gets h H g r v H1 g1 \<Longrightarrow> H1 ! results = ArrayObj vs \<Longrightarrow>
     refss h (H1[results := ArrayObj (vs @ [v])]) g1 results refs H' g' \<Longrightarrow>
     refss h H g results (r # refs) H' g'"
| field_absent: "fields h H g None None H g"
| field_get:
    "truthy (Prim (PNum (int i))) \<Longrightarrow> gets h H g i v H1 g1 \<Longrightarrow>
     fields h H g (Some i) (Some v) H1 g1"
| field_raw:
    "\<not> truthy (Prim (PNum (int i))) \<Longrightarrow>
     fields h H g (Some i) (Some (Prim (PNum (int i)))) H g"
| drefs_nil: "drefs h H g target [] H g"
| drefs_cons:
    "gets h H g i v H1 g1 \<Longrightarrow> heap_assign H1 target key v = Inr H2 \<Longrightarrow>
     drefs h H2 g1 target rest H' g' \<Longrightarrow>
     drefs h H g target ((key, i) # rest) H' g'"
| ddescs_nil: "ddescs h H g target [] H g"
| ddescs_cons:
    "fields h H g (sd_get desc) gt H1 g1 \<Longrightarrow> fields h H1 g1 (sd_set desc) st H2 g2 \<Longrightarrow>
     fields h H2 g2 (sd_value desc) vl H3 g3 \<Longrightarrow>
     defineProperty H3 target key
       \<lparr>pd_get = gt, pd_set = st, pd_value = vl, pd_configurable = sd_configurable desc,
        pd_writable = sd_writable desc, pd_enumerable = sd_enumerable desc\<rparr> = Inr H4 \<Longrightarrow>
     ddescs h H4 g3 target rest H' g' \<Longrightarrow>
     ddescs h H g target ((key, desc) # rest) H' g'"
| dprops_run:
    "drefs h H g target refs H1 g1 \<Longrightarrow> ddescs h H1 g1 target ds H' g' \<Longrightarrow>
     dprops h H g refs ds target H' g'"

section \<open>Notions used by the properties\<close>

text \<open>Encoding a value, passing the graph over the wire, and reading the root.\<close>

definition roundtrip :: "host \<Rightarrow> nat \<Rightarrow> heap \<Rightarrow> val \<Rightarrow> (val \<times> heap \<times> graph) result" where
  "roundtrip h n H v =
     (case serialize h n H v of
        None \<Rightarrow> None
      | Some (H1, g) \<Rightarrow> root h n H1 (fromJSON (toJSON g)))"

text \<open>The descriptors of a content record, and the absence of the field \<open>writable\<close>.\<close>

fun descs_of :: "content \<Rightarrow> sdescs" where
  "descs_of (KObject prototype refs descriptions) = descriptions"
| "descs_of (KFunction source closure prototype refs descriptions) = descriptions"
| "descs_of _ = []"

definition no_writable :: "sdescs \<Rightarrow> bool" where
  "no_writable ds = list_all (\<lambda>(key, d). sd_writable d = None) ds"

definition graph_no_writable :: "graph \<Rightarrow> bool" where
  "graph_no_writable g =
     list_all (\<lambda>slot. case slot of None \<Rightarrow> True | Some c \<Rightarrow> no_writable (descs_of c))
       (contentArray g)"

subsection \<open>Example stores\<close>

text \<open>
  A host whose registry knows one builtin, the prototype of object literals, which lives
  at address 0 of the example stores.
\<close>

definition example_host :: host where
  "example_host =
     \<lparr>getNameOfBuiltin = (\<lambda>v. if v = Ref 0 then Some ''Object.prototype'' else None),
      getBuiltinByName = (\<lambda>name. if name = ''Object.prototype'' then Some (Ref 0) else None),
      objectPrototype = Ref 0\<rparr>"

text \<open>
  \<open>o = {}; Object.defineProperty(o, 'self', {value: o, writable: true, enumerable: false,
  configurable: true})\<close>: an object at address 1 whose attribute \<open>self\<close> is hidden from
  enumeration and points back to the object.
\<close>

definition hidden_self_heap :: heap where
  "hidden_self_heap =
     [PlainObj (Prim PNull) [],
      PlainObj (Ref 0) [(''self'', Data (Ref 1) True False True)]]"

text \<open>
  \<open>o = {}; Object.defineProperty(o, 'hidden', {value: 7, writable: true, enumerable: false,
  configurable: true}); a = [o]\<close>: the array is at address 2.
\<close>

definition hidden_attr_heap :: heap where
  "hidden_attr_heap =
     [PlainObj (Prim PNull) [],
      PlainObj (Ref 0) [(''hidden'', Data (Prim (PNum 7)) True False True)],
      ArrayObj [Ref 1]]"

text \<open>
  \<open>p = {}; o = Object.create(p); p.instance = o\<close>: \<open>o\<close> is at address 1, its prototype \<open>p\<close>
  at address 2.
\<close>

definition back_reference_heap :: heap where
  "back_reference_heap =
     [PlainObj (Prim PNull) [],
      PlainObj (Ref 2) [],
      PlainObj (Ref 0) [(''instance'', Data (Ref 1) True True True)]]"

text \<open>
  A record that makes the decoder give up: its kind is none of the seven, or it names a
  builtin that the registry does not know.
\<close>

fun offending :: "host \<Rightarrow> content option \<Rightarrow> bool" where
  "offending h (Some (KOther kind)) = True"
| "offending h (Some (KBuiltin name)) = (getBuiltinByName h name = None)"
| "offending h _ = False"

text \<open>The entries that a decoding step appended to the table, and what they may point at.\<close>

definition clean_entries :: "host \<Rightarrow> graph \<Rightarrow> (val \<times> nat) list \<Rightarrow> bool" where
  "clean_entries h g new =
     list_all (\<lambda>(w, k). k < length (contentArray g) \<and> \<not> offending h (contentArray g ! k)) new"

definition grows :: "host \<Rightarrow> graph \<Rightarrow> graph \<Rightarrow> bool" where
  "grows h g g' =
     (contentArray g' = contentArray g \<and> rootIndex g' = rootIndex g \<and>
      take (length (indexMap g)) (indexMap g') = indexMap g \<and>
      clean_entries h g (drop (length (indexMap g)) (indexMap g')))"

text \<open>
  A graph as it may arrive over the wire: an array of the number 5 and of a builtin that
  the registry does not know.
\<close>

definition unknown_builtin_wire :: wire where
  "unknown_builtin_wire =
     \<lparr>wire_root = 0,
      wire_data = [Some (KArray [1, 2]), Some (KPrimitive (PNum 5)), Some (KBuiltin ''Missing'')]\<rparr>"

text \<open>
  The table of the encoder lists the indices in the order they were reserved; a later
  graph extends an earlier one when the table and the content array only grew.
\<close>

definition table_ok :: "graph \<Rightarrow> bool" where
  "table_ok g = (map snd (indexMap g) = [0..<length (contentArray g)])"

definition extends :: "graph \<Rightarrow> graph \<Rightarrow> bool" where
  "extends g g' =
     (take (length (indexMap g)) (indexMap g') = indexMap g \<and>
      length (contentArray g) \<le> length (contentArray g') \<and>
      rootIndex g' = rootIndex g)"

text \<open>
  \<open>x = 5; f = () => x\<close>, with the snapshot accessor that the transform attaches: the
  callable is at address 1.
\<close>

definition closure_heap :: heap where
  "closure_heap =
     [PlainObj (Prim PNull) [],
      FunObj \<lparr>fsource = ''() => x'', fclosure = Some [(''x'', Prim (PNum 5))],
              fprops = [], fbound = None\<rparr>]"

subsection \<open>Closed stores\<close>

text \<open>
  A store is closed when every reference held by one of its objects, and the prototype
  of object literals, points into the store: the values a running program can hold.
\<close>

fun valid_val :: "heap \<Rightarrow> val \<Rightarrow> bool" where
  "valid_val H (Ref a) = (a < length H)"
| "valid_val H (Prim p) = True"

fun valid_prop :: "heap \<Rightarrow> jsprop \<Rightarrow> bool" where
  "valid_prop H (Data v w e c) = valid_val H v"
| "valid_prop H (Accessor gt st e c) = (valid_val H gt \<and> valid_val H st)"

definition valid_props :: "heap \<Rightarrow> props \<Rightarrow> bool" where
  "valid_props H ps = list_all (\<lambda>(key, p). valid_prop H p) ps"

definition valid_fn :: "heap \<Rightarrow> fn \<Rightarrow> bool" where
  "valid_fn H f =
     (valid_props H (fprops f) \<and>
      list_all (\<lambda>(key, v). valid_val H v) (case fclosure f of None \<Rightarrow> [] | Some bs \<Rightarrow> bs) \<and>
      list_all (valid_val H) (case fbound f of None \<Rightarrow> [] | Some (code, vs) \<Rightarrow> vs))"

fun valid_obj :: "heap \<Rightarrow> obj \<Rightarrow> bool" where
  "valid_obj H (ArrayObj vs) = list_all (valid_val H) vs"
| "valid_obj H (FunObj f) = valid_fn H f"
| "valid_obj H (DateObj s) = True"
| "valid_obj H (RegExpObj s) = True"
| "valid_obj H (PlainObj proto ps) = (valid_val H proto \<and> valid_props H ps)"

definition closed_heap :: "host \<Rightarrow> heap \<Rightarrow> bool" where
  "closed_heap h H = (list_all (valid_obj H) H \<and> valid_val H (objectPrototype h))"

text \<open>
  The identities that encoding a value of the store can meet: its objects, and one
  snapshot object for each callable.
\<close>

fun is_fun :: "obj \<Rightarrow> bool" where
  "is_fun (FunObj f) = True"
| "is_fun _ = False"

definition identities :: "heap \<Rightarrow> nat" where
  "identities H = length H + length (filter is_fun H)"

text \<open>
  The objects not yet in the table, the callables among them, and their number, which
  bounds the depth that encoding still needs.
\<close>

definition unregistered :: "heap \<Rightarrow> graph \<Rightarrow> addr set" where
  "unregistered H g = {a. a < length H \<and> find_element (indexMap g) (Ref a) = None}"

definition pending_funs :: "heap \<Rightarrow> graph \<Rightarrow> addr set" where
  "pending_funs H g = {a. a < length H \<and> find_element (indexMap g) (Ref a) = None \<and> is_fun (H ! a)}"

definition pot :: "heap \<Rightarrow> graph \<Rightarrow> nat" where
  "pot H g = card (unregistered H g) + card (pending_funs H g)"

definition fun_cost :: "host \<Rightarrow> heap \<Rightarrow> val \<Rightarrow> nat" where
  "fun_cost h H v =
     (case v of
        Ref a \<Rightarrow> if getNameOfBuiltin h v = None \<and> a < length H \<and> is_fun (H ! a) then 1 else 0
      | Prim p \<Rightarrow> 0)"

text \<open>A store that was only appended to.\<close>

definition heap_ext :: "heap \<Rightarrow> heap \<Rightarrow> bool" where
  "heap_ext H H' = (take (length H) H' = H)"

subsection \<open>Plain data as trees\<close>

text \<open>
  The shape of a value built from primitives, arrays and object literals: what a test
  compares when it asks for deep equality. \<open>JSelf\<close> stands for a reference back to one
  distinguished enclosing value, so that a value that contains itself has a shape too.
\<close>

datatype json = JPrim prim | JArr "json list" | JObj "(string \<times> json) list" | JSelf

text \<open>The attributes of an object literal: plain data attributes.\<close>

definition plain_props :: "(string \<times> val) list \<Rightarrow> props" where
  "plain_props kvs = map (\<lambda>(k, v). (k, Data v True True True)) kvs"

text \<open>
  \<open>reads P B S H v j\<close>: in the store \<open>H\<close> the value \<open>v\<close> has the shape \<open>j\<close>, where every
  object has the prototype \<open>P\<close> and distinct attribute names, no part of \<open>v\<close> is one of the
  values \<open>B\<close>, and \<open>JSelf\<close> is the value \<open>S\<close>.
\<close>

inductive reads :: "val \<Rightarrow> val set \<Rightarrow> val option \<Rightarrow> heap \<Rightarrow> val \<Rightarrow> json \<Rightarrow> bool"
  for P :: val and B :: "val set" and S :: "val option" and H :: heap
where
  reads_prim: "Prim p \<notin> B \<Longrightarrow> reads P B S H (Prim p) (JPrim p)"
| reads_arr:
    "a < length H \<Longrightarrow> Ref a \<notin> B \<Longrightarrow> H ! a = ArrayObj vs \<Longrightarrow>
     list_all2 (reads P B S H) vs js \<Longrightarrow> reads P B S H (Ref a) (JArr js)"
| reads_obj:
    "a < length H \<Longrightarrow> Ref a \<notin> B \<Longrightarrow> H ! a = PlainObj P (plain_props kvs) \<Longrightarrow>
     distinct (map fst kvs) \<Longrightarrow> map fst kvs = map fst fs \<Longrightarrow>
     list_all2 (reads P B S H) (map snd kvs) (map snd fs) \<Longrightarrow>
     reads P B S H (Ref a) (JObj fs)"
| reads_self: "S = Some s \<Longrightarrow> s \<in> B \<Longrightarrow> reads P B S H s JSelf"

text \<open>
  \<open>repr nm Q Si C i j\<close>: in the content array \<open>C\<close> the index \<open>i\<close> stands for the shape
  \<open>j\<close>, where every object record has a builtin record named \<open>nm\<close> as its prototype and
  no descriptions, no record of the shape is at an index of \<open>Q\<close>, and \<open>JSelf\<close> is the index
  \<open>Si\<close>.
\<close>

inductive repr :: "string \<Rightarrow> nat set \<Rightarrow> nat option \<Rightarrow> content option list \<Rightarrow> nat \<Rightarrow> json \<Rightarrow> bool"
  for nm :: string and Q :: "nat set" and Si :: "nat option" and C :: "content option list"
where
  repr_prim:
    "i < length C \<Longrightarrow> i \<notin> Q \<Longrightarrow> C ! i = Some (KPrimitive p) \<Longrightarrow> repr nm Q Si C i (JPrim p)"
| repr_arr:
    "i < length C \<Longrightarrow> i \<notin> Q \<Longrightarrow> C ! i = Some (KArray refs) \<Longrightarrow>
     list_all2 (repr nm Q Si C) refs js \<Longrightarrow> repr nm Q Si C i (JArr js)"
| repr_obj:
    "i < length C \<Longrightarrow> i \<notin> Q \<Longrightarrow> C ! i = Some (KObject pi krs []) \<Longrightarrow>
     pi < length C \<Longrightarrow> C ! pi = Some (KBuiltin nm) \<Longrightarrow>
     distinct (map fst krs) \<Longrightarrow> map fst krs = map fst fs \<Longrightarrow>
     list_all2 (repr nm Q Si C) (map snd krs) (map snd fs) \<Longrightarrow>
     repr nm Q Si C i (JObj fs)"
| repr_self: "Si = Some s \<Longrightarrow> s \<in> Q \<Longrightarrow> repr nm Q Si C s JSelf"

text \<open>No object of the shape has an attribute named \<open>__closure\<close>.\<close>

fun closure_free :: "json \<Rightarrow> bool" where
  "closure_free (JPrim p) = True"
| "closure_free (JArr js) = list_all closure_free js"
| "closure_free (JObj fs) =
     (''__closure'' \<notin> set (map fst fs) \<and> list_all closure_free (map snd fs))"
| "closure_free JSelf = True"

text \<open>The depth of nested calls that encoding or decoding a shape needs.\<close>

fun jdepth :: "json \<Rightarrow> nat" where
  "jdepth (JPrim p) = 1"
| "jdepth (JArr js) = Suc (Max (set (0 # map jdepth js)))"
| "jdepth (JObj fs) = Suc (Max (set (1 # map jdepth (map snd fs))))"
| "jdepth JSelf = 0"

text \<open>
  The registry knows the prototype of object literals, which is an object: encoding it
  gives a builtin record, and decoding that record gives it back.
\<close>

definition knows_object_prototype :: "host \<Rightarrow> bool" where
  "knows_object_prototype h =
     (case objectPrototype h of
        Ref p0 \<Rightarrow>
          (case getNameOfBuiltin h (Ref p0) of
             Some nm \<Rightarrow> getBuiltinByName h nm = Some (Ref p0)
           | None \<Rightarrow> False)
      | Prim p \<Rightarrow> False)"

definition registered :: "host \<Rightarrow> val set" where
  "registered h = {v. getNameOfBuiltin h v \<noteq> None}"

subsection \<open>The table of the encoder on plain data\<close>

text \<open>
  The values that are never part of a shape: the builtins of the registry and the
  distinguished value.
\<close>

definition avoid :: "host \<Rightarrow> val option \<Rightarrow> val set" where
  "avoid h S = registered h \<union> set_option S"

text \<open>
  What holds of the graph between two calls of \<open>add\<close> while plain data is encoded: the
  table lists the indices in order; where the content of an index is filled in and the
  value has a shape, the index stands for that shape; the prototype of object literals
  is a builtin record; the distinguished value is in the table, at the distinguished
  index.
\<close>

definition enc_inv :: "host \<Rightarrow> string \<Rightarrow> val option \<Rightarrow> nat option \<Rightarrow> heap \<Rightarrow> graph \<Rightarrow> bool" where
  "enc_inv h nm S Si H g =
     (table_ok g \<and>
      (\<forall>(w, k)\<in>set (indexMap g). contentArray g ! k \<noteq> None \<longrightarrow>
         (\<forall>j. reads (objectPrototype h) (avoid h S) S H w j \<longrightarrow> closure_free j \<longrightarrow>
              repr nm (set_option Si) Si (contentArray g) k j)) \<and>
      (\<forall>(w, k)\<in>set (indexMap g). w = objectPrototype h \<longrightarrow>
         contentArray g ! k = Some (KBuiltin nm)) \<and>
      (\<forall>(w, k)\<in>set (indexMap g). S = Some w \<longrightarrow> Si = Some k) \<and>
      (\<forall>s. S = Some s \<longrightarrow> find_element (indexMap g) s \<noteq> None \<and> s \<notin> registered h) \<and>
      (\<forall>k. Si = Some k \<longrightarrow> k < length (contentArray g)))"

text \<open>
  The values whose content is still to be filled in enclose the value that is encoded
  next: each is the distinguished value or has a deeper shape than \<open>d\<close>, if it has a
  shape.
\<close>

definition pend_ok :: "host \<Rightarrow> val option \<Rightarrow> heap \<Rightarrow> graph \<Rightarrow> nat \<Rightarrow> bool" where
  "pend_ok h S H g d =
     (\<forall>(w, k)\<in>set (indexMap g). contentArray g ! k = None \<longrightarrow>
        S = Some w \<or> (\<forall>j. reads (objectPrototype h) (avoid h S) S H w j \<longrightarrow> d < jdepth j))"

text \<open>
  What a call of \<open>add\<close> does to the graph: the table and the content array grow at the
  end, and every index that the call reserved is filled in when it returns.
\<close>

definition enc_step :: "graph \<Rightarrow> graph \<Rightarrow> bool" where
  "enc_step g g' =
     (extends g g' \<and>
      take (length (contentArray g)) (contentArray g') = contentArray g \<and>
      (\<forall>(w, k)\<in>set (indexMap g'). contentArray g' ! k = None \<longrightarrow> (w, k) \<in> set (indexMap g)))"

text \<open>The result of \<open>add\<close> on a value of shape \<open>j\<close>, at depth \<open>m\<close>.\<close>

definition adds_ok :: "host \<Rightarrow> string \<Rightarrow> val option \<Rightarrow> nat option \<Rightarrow> heap \<Rightarrow> nat \<Rightarrow> json \<Rightarrow> bool" where
  "adds_ok h nm S Si H m j =
     (\<forall>v g. reads (objectPrototype h) (avoid h S) S H v j \<longrightarrow> enc_inv h nm S Si H g \<longrightarrow>
        pend_ok h S H g (jdepth j) \<longrightarrow>
        (\<exists>i g'. add h m H g v = Some (i, H, g') \<and> enc_inv h nm S Si H g' \<and> enc_step g g' \<and>
           repr nm (set_option Si) Si (contentArray g') i j))"

subsection \<open>The table of the decoder on plain data\<close>

text \<open>
  What holds of the store and the graph between two calls of \<open>get\<close> while records of
  plain data are decoded. \<open>Pd\<close> are the entries of arrays and objects that are still being
  built. The value of every other entry has the shape that its index stands for, and
  contains none of the values being built; the distinguished index is in the table,
  with the distinguished value, which is being built; a builtin record named \<open>nm\<close> was
  decoded to the prototype of object literals.
\<close>

definition dec_inv ::
  "host \<Rightarrow> string \<Rightarrow> nat option \<Rightarrow> val option \<Rightarrow> content option list \<Rightarrow> (val \<times> nat) set \<Rightarrow>
   heap \<Rightarrow> graph \<Rightarrow> bool" where
  "dec_inv h nm Si S C Pd H g =
     (contentArray g = C \<and>
      (\<forall>(w, k)\<in>set (indexMap g) - Pd. \<forall>j. repr nm (set_option Si) Si C k j \<longrightarrow>
         reads (objectPrototype h) (fst ` Pd) S H w j) \<and>
      (\<forall>(w, k)\<in>set (indexMap g). Si = Some k \<longrightarrow> S = Some w \<and> (w, k) \<in> Pd) \<and>
      (\<forall>k. Si = Some k \<longrightarrow> find_index (indexMap g) k \<noteq> None) \<and>
      (\<forall>(w, k)\<in>Pd. \<exists>a. w = Ref a \<and> a < length H) \<and>
      (\<forall>s. S = Some s \<longrightarrow> s \<in> fst ` Pd) \<and>
      (\<forall>(w, k)\<in>set (indexMap g). C ! k = Some (KBuiltin nm) \<longrightarrow> w = objectPrototype h))"

text \<open>
  The records being built enclose the record that is decoded next: each is at the
  distinguished index or stands for a deeper shape than \<open>d\<close>, if it stands for one.
\<close>

definition dpend_ok :: "string \<Rightarrow> nat option \<Rightarrow> content option list \<Rightarrow> (val \<times> nat) set \<Rightarrow> nat \<Rightarrow> bool" where
  "dpend_ok nm Si C Pd d =
     (\<forall>(w, k)\<in>Pd. Si = Some k \<or> (\<forall>j. repr nm (set_option Si) Si C k j \<longrightarrow> d < jdepth j))"

text \<open>A store that changed only at the address \<open>r\<close>, or grew.\<close>

definition changed_at :: "addr \<Rightarrow> heap \<Rightarrow> heap \<Rightarrow> bool" where
  "changed_at r H H' = (length H \<le> length H' \<and> (\<forall>a<length H. a \<noteq> r \<longrightarrow> H' ! a = H ! a))"

text \<open>The result of \<open>get\<close> on an index that stands for the shape \<open>j\<close>, at depth \<open>m\<close>.\<close>

definition gets_ok ::
  "host \<Rightarrow> string \<Rightarrow> nat option \<Rightarrow> val option \<Rightarrow> content option list \<Rightarrow> nat \<Rightarrow> json \<Rightarrow> bool" where
  "gets_ok h nm Si S C m j =
     (\<forall>i H g Pd. repr nm (set_option Si) Si C i j \<longrightarrow> dec_inv h nm Si S C Pd H g \<longrightarrow>
        dpend_ok nm Si C Pd (jdepth j) \<longrightarrow>
        (\<exists>v H' g'. get h m H g i = Some (Inr (v, H', g')) \<and> dec_inv h nm Si S C Pd H' g' \<and>
           heap_ext H H' \<and> reads (objectPrototype h) (fst ` Pd) S H' v j))"

subsection \<open>Plain data in the properties\<close>

text \<open>
  Assigning the name \<open>key\<close> on an object with the prototype \<open>proto\<close> creates an own
  attribute: the prototype is null, or it is an object at the end of the prototype chain
  that has no read-only attribute and no accessor of that name. In an untouched runtime
  the prototype of object literals has the accessor \<open>__proto__\<close>, which the stores of the
  examples do not list; that name is excluded outright.
\<close>

definition creates_own :: "heap \<Rightarrow> val \<Rightarrow> string \<Rightarrow> bool" where
  "creates_own H proto key =
     (key \<noteq> ''__proto__'' \<and>
      (case proto of
         Prim p \<Rightarrow> p = PNull
       | Ref a \<Rightarrow>
           a < length H \<and>
           (case H ! a of
              PlainObj (Prim PNull) ps \<Rightarrow>
                (case map_of ps key of
                   None \<Rightarrow> True
                 | Some (Data v w e c) \<Rightarrow> w
                 | Some (Accessor gt st e c) \<Rightarrow> False)
            | _ \<Rightarrow> False)))"

text \<open>
  The prototype of object literals is an object of the store at the end of the prototype
  chain, and none of its attributes is enumerable: \<open>for (key in o)\<close> visits only the own
  attributes of an object literal \<open>o\<close>, as in an untouched runtime.
\<close>

definition plain_prototype :: "heap \<Rightarrow> val \<Rightarrow> bool" where
  "plain_prototype H proto =
     (case proto of
        Prim p \<Rightarrow> False
      | Ref a \<Rightarrow>
          a < length H \<and>
          (case H ! a of
             PlainObj (Prim PNull) ps \<Rightarrow>
               list_all (\<lambda>(key, p). case p of Data v w e c \<Rightarrow> \<not> e | Accessor gt st e c \<Rightarrow> \<not> e) ps
           | _ \<Rightarrow> False))"

text \<open>Every attribute name of the shape satisfies \<open>ok\<close>.\<close>

fun all_names :: "(string \<Rightarrow> bool) \<Rightarrow> json \<Rightarrow> bool" where
  "all_names ok (JPrim p) = True"
| "all_names ok (JArr js) = list_all (all_names ok) js"
| "all_names ok (JObj fs) = (list_all ok (map fst fs) \<and> list_all (all_names ok) (map snd fs))"
| "all_names ok JSelf = True"

text \<open>
  \<open>reads_root P R H v j\<close>: the value \<open>v\<close> is an array or an object literal whose parts are
  \<open>v\<close> itself, where the shape says \<open>JSelf\<close>, or plain data that contains neither \<open>v\<close> nor a
  value of \<open>R\<close>.
\<close>

inductive reads_root :: "val \<Rightarrow> val set \<Rightarrow> heap \<Rightarrow> val \<Rightarrow> json \<Rightarrow> bool"
  for P :: val and R :: "val set" and H :: heap
where
  root_arr:
    "a < length H \<Longrightarrow> Ref a \<notin> R \<Longrightarrow> H ! a = ArrayObj vs \<Longrightarrow>
     list_all2 (reads P (insert (Ref a) R) (Some (Ref a)) H) vs js \<Longrightarrow>
     reads_root P R H (Ref a) (JArr js)"
| root_obj:
    "a < length H \<Longrightarrow> Ref a \<notin> R \<Longrightarrow> H ! a = PlainObj P (plain_props kvs) \<Longrightarrow>
     distinct (map fst kvs) \<Longrightarrow> map fst kvs = map fst fs \<Longrightarrow>
     list_all2 (reads P (insert (Ref a) R) (Some (Ref a)) H) (map snd kvs) (map snd fs) \<Longrightarrow>
     reads_root P R H (Ref a) (JObj fs)"

text \<open>
  For each element of an array, or each own attribute of an object, whether it is the
  array or object itself: \<open>v[i] === v\<close>, \<open>v.attr === v\<close>.
\<close>

definition points_back :: "heap \<Rightarrow> val \<Rightarrow> bool list" where
  "points_back H v =
     (case v of
        Prim p \<Rightarrow> []
      | Ref a \<Rightarrow>
          (case H ! a of
             ArrayObj vs \<Rightarrow> map (\<lambda>x. x = v) vs
           | PlainObj proto ps \<Rightarrow>
               map (\<lambda>(key, p). case p of Data x w e c \<Rightarrow> x = v | Accessor gt st e c \<Rightarrow> False) ps
           | _ \<Rightarrow> []))"

text \<open>
  \<open>repr_root nm C j\<close>: index 0 of the content array is an array record or an object
  record whose parts are index 0 again, where the shape says \<open>JSelf\<close>, or stand for plain
  data.
\<close>

inductive repr_root :: "string \<Rightarrow> content option list \<Rightarrow> json \<Rightarrow> bool"
  for nm :: string and C :: "content option list"
where
  rroot_arr:
    "0 < length C \<Longrightarrow> C ! 0 = Some (KArray refs) \<Longrightarrow>
     list_all2 (repr nm {0} (Some 0) C) refs js \<Longrightarrow> repr_root nm C (JArr js)"
| rroot_obj:
    "0 < length C \<Longrightarrow> C ! 0 = Some (KObject pi krs []) \<Longrightarrow>
     pi < length C \<Longrightarrow> C ! pi = Some (KBuiltin nm) \<Longrightarrow>
     distinct (map fst krs) \<Longrightarrow> map fst krs = map fst fs \<Longrightarrow>
     list_all2 (repr nm {0} (Some 0) C) (map snd krs) (map snd fs) \<Longrightarrow>
     repr_root nm C (JObj fs)"

text \<open>Where a shape says \<open>JSelf\<close> at the top.\<close>

fun self_positions :: "json \<Rightarrow> bool list" where
  "self_positions (JArr js) = map (\<lambda>j. j = JSelf) js"
| "self_positions (JObj fs) = map (\<lambda>f. snd f = JSelf) fs"
| "self_positions j = []"

text \<open>
  \<open>{__closure: 1}\<close>; \<open>{a: 1, b: ['x', null], c: <the same array>}\<close> at address 1;
  \<open>o = {}; o.__closure = o\<close>; \<open>a = [7, a, {k: a}]\<close> at address 1; each store with the
  prototype of object literals at address 0.
\<close>

definition reserved_name_heap :: heap where
  "reserved_name_heap =
     [PlainObj (Prim PNull) [],
      PlainObj (Ref 0) [(''__closure'', Data (Prim (PNum 1)) True True True)]]"

definition nested_heap :: heap where
  "nested_heap =
     [PlainObj (Prim PNull) [],
      PlainObj (Ref 0)
        [(''a'', Data (Prim (PNum 1)) True True True),
         (''b'', Data (Ref 2) True True True),
         (''c'', Data (Ref 2) True True True)],
      ArrayObj [Prim (PStr ''x''), Prim PNull]]"

definition reserved_self_heap :: heap where
  "reserved_self_heap =
     [PlainObj (Prim PNull) [],
      PlainObj (Ref 0) [(''__closure'', Data (Ref 1) True True True)]]"

definition self_array_heap :: heap where
  "self_array_heap =
     [PlainObj (Prim PNull) [],
      ArrayObj [Prim (PNum 7), Ref 1, Ref 2],
      PlainObj (Ref 0) [(''k'', Data (Ref 1) True True True)]]"

declare serialize_value.simps [simp del] serializeFunction.simps [simp del]
  serializeObject.simps [simp del] add_truthy.simps [simp del]

subsection \<open>Every returning run of the encoder is a run of the relation\<close>

lemma add_truthy_sound:
  assumes A: "\<And>H g v i H' g'. add h n H g v = Some (i, H', g') \<Longrightarrow> adds h H g v i H' g'"
    and r: "add_truthy h n H g x = Some (oi, H', g')"
  shows "truthys h H g x oi H' g'"
proof (cases "truthy x")
  case True
  with r obtain i where "add h n H g x = Some (i, H', g')" "oi = Some i"
    by (auto simp: add_truthy.simps split: option.splits)
  with True A show ?thesis by (auto intro: truthy_yes)
next
  case False
  with r show ?thesis by (auto simp: add_truthy.simps intro: truthy_no)
qed

lemma serializeProperty_sound:
  assumes A: "\<And>H g v i H' g'. add h n H g v = Some (i, H', g') \<Longrightarrow> adds h H g v i H' g'"
    and r: "serializeProperty h n H g key desc refs ds = Some (refs', ds', H', g')"
  shows "prop1 h H g key desc refs ds refs' ds' H' g'"
proof (cases desc)
  case (Data v w e c)
  with r obtain i where i: "add h n H g v = Some (i, H', g')"
    and res: "if c \<and> w \<and> e then refs' = AList.update key i refs \<and> ds' = ds
              else refs' = refs \<and> ds' = AList.update key
          \<lparr>sd_get = None, sd_set = None, sd_value = Some i,
           sd_configurable = c, sd_writable = None, sd_enumerable = e\<rparr> ds"
    by (auto split: option.splits if_splits)
  from A[OF i] res Data show ?thesis
    by (cases "c \<and> w \<and> e") (auto intro: prop_plain prop_fancy)
next
  case (Accessor gt st e c)
  with r obtain gi H1 g1 si where
    1: "add_truthy h n H g gt = Some (gi, H1, g1)" and
    2: "add_truthy h n H1 g1 st = Some (si, H', g')" and
    res: "refs' = refs" "ds' = AList.update key
          \<lparr>sd_get = gi, sd_set = si, sd_value = None,
           sd_configurable = c, sd_writable = None, sd_enumerable = e\<rparr> ds"
    by (auto split: option.splits)
  from add_truthy_sound[OF A 1] add_truthy_sound[OF A 2] res Accessor show ?thesis
    by (auto intro: prop_accessor)
qed

lemma serializeProperties_sound:
  assumes A: "\<And>H g v i H' g'. add h n H g v = Some (i, H', g') \<Longrightarrow> adds h H g v i H' g'"
  shows "serializeProperties h n H g ps refs ds = Some (refs', ds', H', g') \<Longrightarrow>
         propss h H g ps refs ds refs' ds' H' g'"
proof (induction ps arbitrary: H g refs ds)
  case Nil
  then show ?case by (auto intro: props_nil)
next
  case (Cons kd rest)
  obtain key desc where kd: "kd = (key, desc)" by (cases kd)
  show ?case
  proof (cases "key = ''__closure''")
    case True
    with Cons kd show ?thesis by (auto intro: props_skip)
  next
    case False
    with Cons.prems kd obtain refs1 ds1 H1 g1 where
      1: "serializeProperty h n H g key desc refs ds = Some (refs1, ds1, H1, g1)" and
      2: "serializeProperties h n H1 g1 rest refs1 ds1 = Some (refs', ds', H', g')"
      by (auto split: option.splits)
    from serializeProperty_sound[OF A 1] Cons.IH[OF 2] False kd show ?thesis
      by (auto intro: props_cons)
  qed
qed

lemma add_each_sound:
  assumes A: "\<And>H g v i H' g'. add h n H g v = Some (i, H', g') \<Longrightarrow> adds h H g v i H' g'"
  shows "add_each h n H g vs = Some (is, H', g') \<Longrightarrow> eachs h H g vs is H' g'"
proof (induction vs arbitrary: H g "is")
  case Nil
  then show ?case by (auto intro: each_nil)
next
  case (Cons v vs)
  from Cons.prems obtain i H1 g1 is' where
    1: "add h n H g v = Some (i, H1, g1)" and
    2: "add_each h n H1 g1 vs = Some (is', H', g')" and 3: "is = i # is'"
    by (auto split: option.splits)
  from A[OF 1] Cons.IH[OF 2] 3 show ?case by (auto intro: each_cons)
qed

lemma serializeFunction_sound:
  assumes A: "\<And>H g v i H' g'. add h n H g v = Some (i, H', g') \<Longrightarrow> adds h H g v i H' g'"
    and r: "serializeFunction h n H g f = Some (c, H', g')"
  shows "funs h H g f c H' g'"
proof -
  from r obtain ci H1 g1 pi H2 g2 refs descs where
    1: "add h n (H @ [snapshot_object h (case fclosure f of None \<Rightarrow> [] | Some bs \<Rightarrow> bs)]) g
          (Ref (length H)) = Some (ci, H1, g1)" and
    2: "add h n H1 g1 (own_value (fprops f) ''prototype'') = Some (pi, H2, g2)" and
    3: "serializeProperties h n H2 g2 (fprops f) [] [] = Some (refs, descs, H', g')" and
    4: "c = KFunction (fsource f) ci pi refs descs"
    by (auto simp: serializeFunction.simps split: option.splits)
  from A[OF 1] A[OF 2] serializeProperties_sound[OF A 3] 4 show ?thesis
    by (auto intro: fun_run)
qed

lemma serializeObject_sound:
  assumes A: "\<And>H g v i H' g'. add h n H g v = Some (i, H', g') \<Longrightarrow> adds h H g v i H' g'"
    and r: "serializeObject h n H g proto ps = Some (c, H', g')"
  shows "objs h H g proto ps c H' g'"
proof -
  from r obtain pi H1 g1 refs descs where
    1: "add h n H g proto = Some (pi, H1, g1)" and
    2: "serializeProperties h n H1 g1 ps [] [] = Some (refs, descs, H', g')" and
    3: "c = KObject pi refs descs"
    by (auto simp: serializeObject.simps split: option.splits)
  from A[OF 1] serializeProperties_sound[OF A 2] 3 show ?thesis
    by (auto intro: obj_run)
qed

lemma serialize_value_sound:
  assumes A: "\<And>H g v i H' g'. add h n H g v = Some (i, H', g') \<Longrightarrow> adds h H g v i H' g'"
    and r: "serialize_value h n H g v = Some (c, H', g')"
  shows "sers h H g v c H' g'"
proof (cases "getNameOfBuiltin h v")
  case (Some name)
  with r show ?thesis by (auto simp: serialize_value.simps intro: ser_builtin)
next
  case None
  show ?thesis
  proof (cases v)
    case (Prim p)
    with r None show ?thesis by (auto simp: serialize_value.simps intro: ser_prim)
  next
    case (Ref a)
    with r None have a: "a < length H"
      by (auto simp: serialize_value.simps split: if_splits)
    show ?thesis
    proof (cases "H ! a")
      case (ArrayObj vs)
      with r None Ref a obtain refs where "add_each h n H g vs = Some (refs, H', g')" "c = KArray refs"
        by (auto simp: serialize_value.simps split: option.splits)
      with add_each_sound[OF A] None Ref a ArrayObj show ?thesis by (auto intro: ser_array)
    next
      case (FunObj f)
      with r None Ref a have "serializeFunction h n H g f = Some (c, H', g')"
        by (auto simp: serialize_value.simps)
      from serializeFunction_sound[OF A this] None Ref a FunObj show ?thesis
        by (auto intro: ser_fun)
    next
      case (DateObj s)
      with r None Ref a show ?thesis by (auto simp: serialize_value.simps intro: ser_date)
    next
      case (RegExpObj s)
      with r None Ref a show ?thesis by (auto simp: serialize_value.simps intro: ser_regex)
    next
      case (PlainObj proto ps)
      with r None Ref a have "serializeObject h n H g proto ps = Some (c, H', g')"
        by (auto simp: serialize_value.simps)
      from serializeObject_sound[OF A this] None Ref a PlainObj show ?thesis
        by (auto intro: ser_obj)
    qed
  qed
qed

lemma add_sound: "add h n H g v = Some (i, H', g') \<Longrightarrow> adds h H g v i H' g'"
proof (induction n arbitrary: H g v i H' g')
  case 0
  then show ?case by (auto split: option.splits intro: add_hit)
next
  case (Suc n)
  show ?case
  proof (cases "find_element (indexMap g) v")
    case (Some k)
    with Suc.prems show ?thesis by (auto intro: add_hit)
  next
    case None
    with Suc.prems obtain c H2 g2 where
      1: "serialize_value h n H (reserve g v) v = Some (c, H2, g2)" and
      2: "i = length (contentArray g)" "H' = H2" "g' = fill g2 (length (contentArray g)) c"
      by (auto split: option.splits)
    from serialize_value_sound[OF Suc.IH 1] None 2 show ?thesis
      by (auto intro: add_miss)
  qed
qed

lemmas add_each_run = add_each_sound[OF add_sound]
lemmas serialize_value_run = serialize_value_sound[OF add_sound]

declare deserializeProperties.simps [simp del]

subsection \<open>Every returning run of the decoder is a run of the relation\<close>

lemma get_refs_sound:
  assumes G: "\<And>H g i v H' g'. get h n H g i = Some (Inr (v, H', g')) \<Longrightarrow> gets h H g i v H' g'"
  shows "get_refs h n H g results refs = Some (Inr (H', g')) \<Longrightarrow> refss h H g results refs H' g'"
proof (induction refs arbitrary: H g)
  case Nil
  then show ?case by (auto intro: refs_nil)
next
  case (Cons r refs)
  from Cons.prems obtain v H1 g1 vs where
    1: "get h n H g r = Some (Inr (v, H1, g1))" and
    2: "H1 ! results = ArrayObj vs" and
    3: "get_refs h n (H1[results := ArrayObj (vs @ [v])]) g1 results refs = Some (Inr (H', g'))"
    by (auto split: option.splits sum.splits obj.splits)
  from G[OF 1] 2 Cons.IH[OF 3] show ?case by (rule refs_cons)
qed

lemma parse_field_sound:
  assumes G: "\<And>H g i v H' g'. get h n H g i = Some (Inr (v, H', g')) \<Longrightarrow> gets h H g i v H' g'"
    and r: "parse_field h n H g fld = Some (Inr (ov, H', g'))"
  shows "fields h H g fld ov H' g'"
proof (cases fld)
  case None
  with r show ?thesis by (auto intro: field_absent)
next
  case (Some i)
  show ?thesis
  proof (cases "truthy (Prim (PNum (int i)))")
    case True
    with r Some obtain v where "get h n H g i = Some (Inr (v, H', g'))" "ov = Some v"
      by (auto split: option.splits sum.splits)
    with G True Some show ?thesis by (auto intro: field_get)
  next
    case False
    with r Some have "ov = Some (Prim (PNum (int i)))" "H' = H" "g' = g"
      by auto
    with field_raw[OF False, of h H g] Some show ?thesis by simp
  qed
qed

lemma deserializeRefs_sound:
  assumes G: "\<And>H g i v H' g'. get h n H g i = Some (Inr (v, H', g')) \<Longrightarrow> gets h H g i v H' g'"
  shows "deserializeRefs h n H g target refs = Some (Inr (H', g')) \<Longrightarrow>
         drefs h H g target refs H' g'"
proof (induction refs arbitrary: H g)
  case Nil
  then show ?case by (auto intro: drefs_nil)
next
  case (Cons ki rest)
  obtain key i where ki: "ki = (key, i)" by (cases ki)
  from Cons.prems ki obtain v H1 g1 H2 where
    1: "get h n H g i = Some (Inr (v, H1, g1))" and
    2: "heap_assign H1 target key v = Inr H2" and
    3: "deserializeRefs h n H2 g1 target rest = Some (Inr (H', g'))"
    by (auto split: option.splits sum.splits)
  from G[OF 1] 2 Cons.IH[OF 3] show ?case unfolding ki by (rule drefs_cons)
qed

lemma deserializeDescriptions_sound:
  assumes G: "\<And>H g i v H' g'. get h n H g i = Some (Inr (v, H', g')) \<Longrightarrow> gets h H g i v H' g'"
  shows "deserializeDescriptions h n H g target ds = Some (Inr (H', g')) \<Longrightarrow>
         ddescs h H g target ds H' g'"
proof (induction ds arbitrary: H g)
  case Nil
  then show ?case by (auto intro: ddescs_nil)
next
  case (Cons kd rest)
  obtain key desc where kd: "kd = (key, desc)" by (cases kd)
  from Cons.prems kd obtain gt H1 g1 st H2 g2 vl H3 g3 H4 where
    1: "parse_field h n H g (sd_get desc) = Some (Inr (gt, H1, g1))" and
    2: "parse_field h n H1 g1 (sd_set desc) = Some (Inr (st, H2, g2))" and
    3: "parse_field h n H2 g2 (sd_value desc) = Some (Inr (vl, H3, g3))" and
    4: "defineProperty H3 target key
       \<lparr>pd_get = gt, pd_set = st, pd_value = vl, pd_configurable = sd_configurable desc,
        pd_writable = sd_writable desc, pd_enumerable = sd_enumerable desc\<rparr> = Inr H4" and
    5: "deserializeDescriptions h n H4 g3 target rest = Some (Inr (H', g'))"
    by (auto split: option.splits sum.splits simp: Let_def)
  from parse_field_sound[OF G 1] parse_field_sound[OF G 2] parse_field_sound[OF G 3] 4
    Cons.IH[OF 5]
  show ?case unfolding kd by (rule ddescs_cons)
qed

lemma deserializeProperties_sound:
  assumes G: "\<And>H g i v H' g'. get h n H g i = Some (Inr (v, H', g')) \<Longrightarrow> gets h H g i v H' g'"
    and r: "deserializeProperties h n H g refs ds target = Some (Inr (H', g'))"
  shows "dprops h H g refs ds target H' g'"
proof -
  from r obtain H1 g1 where
    1: "deserializeRefs h n H g target refs = Some (Inr (H1, g1))" and
    2: "deserializeDescriptions h n H1 g1 target ds = Some (Inr (H', g'))"
    by (auto simp: deserializeProperties.simps split: option.splits sum.splits)
  from deserializeRefs_sound[OF G 1] deserializeDescriptions_sound[OF G 2]
  show ?thesis by (rule dprops_run)
qed

lemma get_sound: "get h n H g i = Some (Inr (v, H', g')) \<Longrightarrow> gets h H g i v H' g'"
proof (induction n arbitrary: H g i v H' g')
  case 0
  then show ?case by (auto split: option.splits intro: get_hit)
next
  case (Suc n)
  note G = Suc.IH
  show ?case
  proof (cases "find_index (indexMap g) i")
    case (Some w)
    with Suc.prems show ?thesis by (auto intro: get_hit)
  next
    case None
    with Suc.prems have len: "i < length (contentArray g)"
      by (auto split: if_splits)
    with Suc.prems None obtain c where c: "contentArray g ! i = Some c"
      by (cases "contentArray g ! i") auto
    show ?thesis
    proof (cases c)
      case (KPrimitive p)
      with Suc.prems None len c show ?thesis by (auto intro: get_prim)
    next
      case (KArray refs)
      with Suc.prems None len c have
        "get_refs h n (H @ [ArrayObj []]) (push_index g (Ref (length H)) i) (length H) refs =
           Some (Inr (H', g'))" and "v = Ref (length H)"
        by (auto simp: Let_def split: option.splits sum.splits)
      with get_refs_sound[OF G] None len c KArray show ?thesis by (auto intro: get_array)
    next
      case (KObject prototype refs ds)
      with Suc.prems None len c obtain proto H1 g1 where
        1: "get h n H g prototype = Some (Inr (proto, H1, g1))" and
        2: "object_or_null proto" and
        3: "deserializeProperties h n (H1 @ [PlainObj proto []])
              (push_index g1 (Ref (length H1)) i) refs ds (length H1) = Some (Inr (H', g'))" and
        4: "v = Ref (length H1)"
        by (auto simp: Let_def split: option.splits sum.splits if_splits)
      note c' = c[unfolded KObject]
      note d = deserializeProperties_sound[OF G 3]
      from get_object[OF None len c' G[OF 1] 2 d] 4
      show ?thesis by simp
    next
      case (KFunction source closure prototype refs ds)
      with Suc.prems None len c obtain dc H1 g1 proto H3 g3 H4 H5 H6 where
        1: "get h n (H @ [FunObj thunk]) (push_index g (Ref (length H)) i) closure =
              Some (Inr (dc, H1, g1))" and
        2: "get h n (H1 @ [FunObj \<lparr>fsource = source, fclosure = None, fprops = [],
                    fbound = Some (wrapper_code (map fst (closure_entries H1 dc)) source,
                                   map snd (closure_entries H1 dc))\<rparr>]) g1 prototype =
              Some (Inr (proto, H3, g3))" and
        3: "heap_assign H3 (length H1) ''prototype'' proto = Inr H4" and
        4: "heap_assign H4 (length H) ''__impl'' (Ref (length H1)) = Inr H5" and
        5: "heap_assign H5 (length H) ''prototype''
              (own_value (props_of (H5 ! length H1)) ''prototype'') = Inr H6" and
        6: "deserializeProperties h n H6 g3 refs ds (length H) = Some (Inr (H', g'))" and
        7: "v = Ref (length H)"
        by (auto simp: Let_def split: option.splits sum.splits)
      note c' = c[unfolded KFunction]
      note d = deserializeProperties_sound[OF G 6]
      from get_function[OF None len c' G[OF 1] G[OF 2] 3 4 5 d] 7
      show ?thesis by simp
    next
      case (KBuiltin name)
      with Suc.prems None len c show ?thesis
        by (auto split: option.splits intro: get_builtin)
    next
      case (KDate s)
      with Suc.prems None len c show ?thesis by (auto intro: get_date)
    next
      case (KRegex s)
      with Suc.prems None len c show ?thesis by (auto intro: get_regex)
    next
      case (KOther kind)
      with Suc.prems None len c show ?thesis by auto
    qed
  qed
qed

lemma get_refs_run:
  assumes "get_refs h n H g results refs = Some (Inr (H', g'))"
  shows "refss h H g results refs H' g'"
  using get_sound assms by (rule get_refs_sound)

lemma parse_field_run:
  assumes "parse_field h n H g fld = Some (Inr (ov, H', g'))"
  shows "fields h H g fld ov H' g'"
  using get_sound assms by (rule parse_field_sound)

lemma deserializeRefs_run:
  assumes "deserializeRefs h n H g target refs = Some (Inr (H', g'))"
  shows "drefs h H g target refs H' g'"
  using get_sound assms by (rule deserializeRefs_sound)

lemma deserializeDescriptions_run:
  assumes "deserializeDescriptions h n H g target ds = Some (Inr (H', g'))"
  shows "ddescs h H g target ds H' g'"
  using get_sound assms by (rule deserializeDescriptions_sound)

lemma deserializeProperties_run:
  assumes "deserializeProperties h n H g refs ds target = Some (Inr (H', g'))"
  shows "dprops h H g refs ds target H' g'"
  using get_sound assms by (rule deserializeProperties_sound)

subsection \<open>No emitted descriptor has the field \<open>writable\<close>\<close>

lemma no_writable_update:
  "no_writable ds \<Longrightarrow> sd_writable d = None \<Longrightarrow> no_writable (AList.update key d ds)"
  by (induction ds) (auto simp: no_writable_def)

lemma graph_no_writable_fill:
  "graph_no_writable g \<Longrightarrow> no_writable (descs_of c) \<Longrightarrow> graph_no_writable (fill g i c)"
  by (auto simp: graph_no_writable_def fill_def list_all_iff
           dest!: set_update_subset_insert[THEN subsetD])

lemma graph_no_writable_reserve:
  "graph_no_writable g \<Longrightarrow> graph_no_writable (reserve g v)"
  by (simp add: graph_no_writable_def reserve_def)

lemma no_writable_Nil: "no_writable []"
  by (simp add: no_writable_def)

lemma runs_no_writable:
  "adds h H g v i H' g' \<Longrightarrow> graph_no_writable g \<Longrightarrow> graph_no_writable g'"
  "sers h H g v c H' g' \<Longrightarrow> graph_no_writable g \<Longrightarrow>
     graph_no_writable g' \<and> no_writable (descs_of c)"
  "eachs h H g vs is H' g' \<Longrightarrow> graph_no_writable g \<Longrightarrow> graph_no_writable g'"
  "funs h H g f c H' g' \<Longrightarrow> graph_no_writable g \<Longrightarrow>
     graph_no_writable g' \<and> no_writable (descs_of c)"
  "objs h H g proto ps c H' g' \<Longrightarrow> graph_no_writable g \<Longrightarrow>
     graph_no_writable g' \<and> no_writable (descs_of c)"
  "truthys h H g x oi H' g' \<Longrightarrow> graph_no_writable g \<Longrightarrow> graph_no_writable g'"
  "prop1 h H g key desc refs ds refs' ds' H' g' \<Longrightarrow> graph_no_writable g \<Longrightarrow>
     no_writable ds \<Longrightarrow> graph_no_writable g' \<and> no_writable ds'"
  "propss h H g ps refs ds refs' ds' H' g' \<Longrightarrow> graph_no_writable g \<Longrightarrow>
     no_writable ds \<Longrightarrow> graph_no_writable g' \<and> no_writable ds'"
proof (induction rule: adds_sers_eachs_funs_objs_truthys_prop1_propss.inducts)
  case (add_miss g v H c H2 g2)
  then show ?case by (simp add: graph_no_writable_reserve graph_no_writable_fill)
next
  case (prop_fancy c w e H g v i H1 g1 key refs ds)
  then show ?case by (simp add: no_writable_update)
next
  case (prop_accessor H g gt gi H1 g1 st si H2 g2 key e c refs ds)
  then show ?case by (simp add: no_writable_update)
qed (simp_all add: no_writable_Nil)

text \<open>
  C10. Whatever value is serialized, no descriptor in the \<open>descriptions\<close> of any record of
  the resulting graph has the field \<open>writable\<close>: the guard reads the field from the
  descriptor that was just created, where it is still absent, so the flag of the
  original attribute is never copied.
\<close>

theorem serialize_never_emits_writable:
  "serialize h n H v = Some (H', g) \<Longrightarrow> graph_no_writable g"
proof -
  assume "serialize h n H v = Some (H', g)"
  then obtain i g0 where a: "add h n H new_graph v = Some (i, H', g0)"
    and g: "g = g0\<lparr>rootIndex := int i\<rparr>"
    by (auto simp: serialize_def split: option.splits)
  have "graph_no_writable new_graph"
    by (simp add: graph_no_writable_def new_graph_def)
  with runs_no_writable(1)[OF add_sound[OF a]] have "graph_no_writable g0" .
  with g show ?thesis by (simp add: graph_no_writable_def)
qed

theorem serialize_never_emits_writable_witness:
  "serialize example_host 3 hidden_attr_heap (Ref 2) =
     Some (hidden_attr_heap,
       \<lparr>indexMap = [(Ref 2, 0), (Ref 1, 1), (Ref 0, 2), (Prim (PNum 7), 3)], rootIndex = 0,
        contentArray =
          [Some (KArray [1]),
           Some (KObject 2 []
             [(''hidden'', \<lparr>sd_get = None, sd_set = None, sd_value = Some 3,
                sd_configurable = True, sd_writable = None, sd_enumerable = False\<rparr>)]),
           Some (KBuiltin ''Object.prototype''),
           Some (KPrimitive (PNum 7))]\<rparr>) \<and>
   graph_no_writable
       \<lparr>indexMap = [(Ref 2, 0), (Ref 1, 1), (Ref 0, 2), (Prim (PNum 7), 3)], rootIndex = 0,
        contentArray =
          [Some (KArray [1]),
           Some (KObject 2 []
             [(''hidden'', \<lparr>sd_get = None, sd_set = None, sd_value = Some 3,
                sd_configurable = True, sd_writable = None, sd_enumerable = False\<rparr>)]),
           Some (KBuiltin ''Object.prototype''),
           Some (KPrimitive (PNum 7))]\<rparr>"
proof -
  have e: "serialize example_host 3 hidden_attr_heap (Ref 2) =
     Some (hidden_attr_heap,
       \<lparr>indexMap = [(Ref 2, 0), (Ref 1, 1), (Ref 0, 2), (Prim (PNum 7), 3)], rootIndex = 0,
        contentArray =
          [Some (KArray [1]),
           Some (KObject 2 []
             [(''hidden'', \<lparr>sd_get = None, sd_set = None, sd_value = Some 3,
                sd_configurable = True, sd_writable = None, sd_enumerable = False\<rparr>)]),
           Some (KBuiltin ''Object.prototype''),
           Some (KPrimitive (PNum 7))]\<rparr>)"
    by code_simp
  from e serialize_never_emits_writable[OF e] show ?thesis by simp
qed

subsection \<open>What a returning run of the decoder does to the graph\<close>

lemma grows_refl: "grows h g g"
  by (simp add: grows_def clean_entries_def)

lemma grows_trans: "grows h g g1 \<Longrightarrow> grows h g1 g2 \<Longrightarrow> grows h g g2"
proof -
  assume a: "grows h g g1" and b: "grows h g1 g2"
  from a obtain n1 where 1: "indexMap g1 = indexMap g @ n1"
    by (metis append_take_drop_id grows_def)
  from b obtain n2 where 2: "indexMap g2 = indexMap g1 @ n2"
    by (metis append_take_drop_id grows_def)
  from a 1 have c1: "clean_entries h g n1" by (simp add: grows_def)
  from b 2 have c2: "clean_entries h g1 n2" by (simp add: grows_def)
  from a have ca: "contentArray g1 = contentArray g" by (simp add: grows_def)
  from c1 c2 ca have "clean_entries h g (n1 @ n2)" by (simp add: clean_entries_def)
  with a b 1 2 show ?thesis by (simp add: grows_def)
qed

lemma grows_push:
  "i < length (contentArray g) \<Longrightarrow> \<not> offending h (contentArray g ! i) \<Longrightarrow>
   grows h g (push_index g v i)"
  by (simp add: grows_def push_index_def clean_entries_def)

lemma grows_push_trans:
  "i < length (contentArray g) \<Longrightarrow> \<not> offending h (contentArray g ! i) \<Longrightarrow>
   grows h (push_index g v i) g' \<Longrightarrow> grows h g g'"
  by (rule grows_trans[OF grows_push])

lemma grows_contentArray: "grows h g g' \<Longrightarrow> contentArray g' = contentArray g"
  by (simp add: grows_def)

lemma runs_grow:
  "gets h H g i v H' g' \<Longrightarrow> grows h g g'"
  "refss h H g results refs H' g' \<Longrightarrow> grows h g g'"
  "fields h H g fld ov H' g' \<Longrightarrow> grows h g g'"
  "drefs h H g target rs H' g' \<Longrightarrow> grows h g g'"
  "ddescs h H g target ds H' g' \<Longrightarrow> grows h g g'"
  "dprops h H g rs ds target H' g' \<Longrightarrow> grows h g g'"
proof (induction rule: gets_refss_fields_drefs_ddescs_dprops.inducts)
  case (get_array g i refs H H2 g2)
  then show ?case by (auto intro: grows_push_trans)
next
  case (get_object g i prototype refs ds H proto H1 g1 H3 g3)
  from get_object have a: "grows h g g1"
    by simp
  then have "contentArray g1 = contentArray g"
    by (rule grows_contentArray)
  with get_object have "grows h g1 (push_index g1 (Ref (length H1)) i)"
    by (auto intro!: grows_push)
  with get_object a show ?case by (blast intro: grows_trans)
next
  case (get_function g i source closure prototype refs ds H dc H1 g1 proto H3 g3 H4 H5 H6 H7 g7)
  from get_function have "grows h g (push_index g (Ref (length H)) i)"
    by (auto intro!: grows_push)
  with get_function show ?case by (blast intro: grows_trans)
qed (auto intro: grows_refl grows_push grows_trans)

lemma find_index_append:
  "find_index m i = Some v \<Longrightarrow> find_index (m @ new) i = Some v"
  by (induction m) auto

lemma find_index_append_last: "find_index (m @ [(v, i)]) i \<noteq> None"
  by (induction m) auto

lemma grows_find_index:
  "grows h g g' \<Longrightarrow> find_index (indexMap g) i = Some v \<Longrightarrow> find_index (indexMap g') i = Some v"
  by (metis append_take_drop_id find_index_append grows_def)

lemma grows_registered:
  "grows h g g' \<Longrightarrow> find_index (indexMap g) i \<noteq> None \<Longrightarrow> find_index (indexMap g') i \<noteq> None"
  using grows_find_index by fastforce

lemma push_registered: "find_index (indexMap (push_index g v i)) i \<noteq> None"
  by (simp add: push_index_def find_index_append_last)

lemma gets_registered:
  assumes "gets h H g i v H' g'"
  shows "find_index (indexMap g') i \<noteq> None"
  using assms
proof (cases rule: gets.cases)
  case (get_array refs)
  then have "grows h (push_index g (Ref (length H)) i) g'"
    by (auto dest: runs_grow(2))
  then show ?thesis
    by (rule grows_registered) (rule push_registered)
next
  case (get_object prototype refs ds proto H1 g1)
  then have "grows h (push_index g1 (Ref (length H1)) i) g'"
    by (auto dest: runs_grow(6))
  then show ?thesis
    by (rule grows_registered) (rule push_registered)
next
  case (get_function source closure prototype refs ds dc H1 g1 proto H3 g3 H4 H5 H6)
  then have 1: "grows h (push_index g (Ref (length H)) i) g1"
    and 2: "grows h g1 g3" and 3: "grows h g3 g'"
    by (auto dest: runs_grow)
  from grows_trans[OF grows_trans[OF 1 2] 3] show ?thesis
    by (rule grows_registered) (rule push_registered)
qed (auto simp: push_registered)

subsection \<open>The table of the encoder\<close>

lemma extends_refl: "extends g g"
  by (simp add: extends_def)

lemma extends_trans: "extends g g1 \<Longrightarrow> extends g1 g2 \<Longrightarrow> extends g g2"
proof -
  assume a: "extends g g1" and b: "extends g1 g2"
  from a obtain n1 where 1: "indexMap g1 = indexMap g @ n1"
    by (metis append_take_drop_id extends_def)
  from b obtain n2 where 2: "indexMap g2 = indexMap g1 @ n2"
    by (metis append_take_drop_id extends_def)
  from a b 1 2 show ?thesis by (simp add: extends_def)
qed

lemma extends_reserve: "extends g (reserve g v)"
  by (simp add: extends_def reserve_def)

lemma extends_fill: "extends g (fill g i c)"
  by (simp add: extends_def fill_def)

lemma table_ok_reserve: "table_ok g \<Longrightarrow> table_ok (reserve g v)"
  by (simp add: table_ok_def reserve_def)

lemma table_ok_fill: "table_ok g \<Longrightarrow> table_ok (fill g i c)"
  by (simp add: table_ok_def fill_def)

lemma runs_table:
  "adds h H g v i H' g' \<Longrightarrow> table_ok g \<Longrightarrow> table_ok g' \<and> extends g g'"
  "sers h H g v c H' g' \<Longrightarrow> table_ok g \<Longrightarrow> table_ok g' \<and> extends g g'"
  "eachs h H g vs is H' g' \<Longrightarrow> table_ok g \<Longrightarrow> table_ok g' \<and> extends g g'"
  "funs h H g f c H' g' \<Longrightarrow> table_ok g \<Longrightarrow> table_ok g' \<and> extends g g'"
  "objs h H g proto ps c H' g' \<Longrightarrow> table_ok g \<Longrightarrow> table_ok g' \<and> extends g g'"
  "truthys h H g x oi H' g' \<Longrightarrow> table_ok g \<Longrightarrow> table_ok g' \<and> extends g g'"
  "prop1 h H g key desc refs ds refs' ds' H' g' \<Longrightarrow> table_ok g \<Longrightarrow>
     table_ok g' \<and> extends g g'"
  "propss h H g ps refs ds refs' ds' H' g' \<Longrightarrow> table_ok g \<Longrightarrow>
     table_ok g' \<and> extends g g'"
proof (induction rule: adds_sers_eachs_funs_objs_truthys_prop1_propss.inducts)
  case (add_miss g v H c H2 g2)
  then have "table_ok g2" and "extends (reserve g v) g2"
    by (simp_all add: table_ok_reserve)
  then show ?case
    by (auto intro: table_ok_fill extends_trans[OF extends_reserve] extends_trans extends_fill)
qed (auto intro: extends_refl extends_trans)

lemma find_element_mem:
  "find_element m v = Some i \<Longrightarrow> (v, i) \<in> set m"
proof (induction m)
  case Nil
  then show ?case by simp
next
  case (Cons p m)
  obtain e k where p: "p = (e, k)" by (cases p)
  show ?case
  proof (cases "strict_eq e v")
    case True
    then have "e = v"
      by (cases "(e, v)" rule: strict_eq.cases) auto
    with True Cons.prems p show ?thesis by simp
  next
    case False
    with Cons p show ?thesis by simp
  qed
qed

lemma find_index_distinct:
  "distinct (map snd m) \<Longrightarrow> (v, i) \<in> set m \<Longrightarrow> find_index m i = Some v"
  by (induction m) force+

lemma table_ok_distinct: "table_ok g \<Longrightarrow> distinct (map snd (indexMap g))"
  by (simp add: table_ok_def)

lemma extends_mem: "extends g g' \<Longrightarrow> x \<in> set (indexMap g) \<Longrightarrow> x \<in> set (indexMap g')"
  by (metis extends_def in_set_takeD)

lemma reserve_mem: "(v, length (contentArray g)) \<in> set (indexMap (reserve g v))"
  by (simp add: reserve_def)

lemma adds_registered:
  assumes "adds h H g v i H' g'" and "table_ok g"
  shows "find_index (indexMap g') i = Some v"
  using assms(1)
proof (cases rule: adds.cases)
  case add_hit
  with assms(2) show ?thesis
    by (auto intro!: find_index_distinct table_ok_distinct find_element_mem)
next
  case (add_miss c g2)
  note r = table_ok_reserve[OF assms(2)]
  from runs_table(2)[OF add_miss(4) r]
  have t: "table_ok g2" and e: "extends (reserve g v) g2"
    by simp_all
  from extends_mem[OF e reserve_mem] have "(v, length (contentArray g)) \<in> set (indexMap g2)" .
  with t add_miss show ?thesis
    by (auto intro!: find_index_distinct table_ok_distinct simp: fill_def)
qed

lemma get_registered:
  "find_index (indexMap g) i = Some v \<Longrightarrow> get h n H g i = Some (Inr (v, H, g))"
  by (cases n) simp_all

subsection \<open>The depth that encoding needs\<close>

lemma find_element_append:
  "find_element (m @ n) v = (case find_element m v of Some i \<Rightarrow> Some i | None \<Rightarrow> find_element n v)"
  by (induction m) auto

lemma strict_eq_Ref [simp]: "strict_eq v (Ref a) = (v = Ref a)"
  by (cases "(v, Ref a)" rule: strict_eq.cases) auto

lemma find_element_reserve:
  "find_element (indexMap (reserve g v)) (Ref a) =
     (case find_element (indexMap g) (Ref a) of
        Some i \<Rightarrow> Some i
      | None \<Rightarrow> if v = Ref a then Some (length (contentArray g)) else None)"
  by (auto simp: reserve_def find_element_append split: option.splits)

lemma finite_unregistered [simp]: "finite (unregistered H g)"
  by (simp add: unregistered_def)

lemma finite_pending_funs [simp]: "finite (pending_funs H g)"
  by (simp add: pending_funs_def)

lemma unregistered_reserve:
  "unregistered H (reserve g v) = unregistered H g - (case v of Ref a \<Rightarrow> {a} | Prim p \<Rightarrow> {})"
  by (cases v) (auto simp: unregistered_def find_element_reserve split: option.splits)

lemma pending_funs_reserve:
  "pending_funs H (reserve g v) = pending_funs H g - (case v of Ref a \<Rightarrow> {a} | Prim p \<Rightarrow> {})"
  by (cases v) (auto simp: pending_funs_def find_element_reserve split: option.splits)

lemma pot_fill [simp]: "pot H (fill g i c) = pot H g"
  by (simp add: pot_def unregistered_def pending_funs_def fill_def)

lemma pot_reserve_le: "pot H (reserve g v) \<le> pot H g"
  unfolding pot_def unregistered_reserve pending_funs_reserve
  by (intro add_mono card_mono) auto

lemma pot_reserve_Ref:
  assumes "find_element (indexMap g) (Ref a) = None" and "a < length H"
  shows "pot H (reserve g (Ref a)) + fun_cost h H (Ref a) < pot H g"
proof -
  from assms have u: "a \<in> unregistered H g"
    by (simp add: unregistered_def)
  then have 1: "card (unregistered H (reserve g (Ref a))) < card (unregistered H g)"
    unfolding unregistered_reserve by (simp add: card_Diff1_less del: card_Diff_insert)
  show ?thesis
  proof (cases "is_fun (H ! a)")
    case True
    with assms have "a \<in> pending_funs H g"
      by (simp add: pending_funs_def)
    then have "card (pending_funs H (reserve g (Ref a))) < card (pending_funs H g)"
      unfolding pending_funs_reserve by (simp add: card_Diff1_less del: card_Diff_insert)
    with 1 show ?thesis
      by (simp add: pot_def fun_cost_def)
  next
    case False
    have "card (pending_funs H (reserve g (Ref a))) \<le> card (pending_funs H g)"
      by (simp add: pending_funs_reserve card_Diff_subset_Int card_mono)
    with 1 False show ?thesis
      by (simp add: pot_def fun_cost_def)
  qed
qed

lemma pot_reserve_cost:
  assumes "find_element (indexMap g) v = None"
  shows "pot H (reserve g v) + fun_cost h H v \<le> pot H g"
proof (cases "fun_cost h H v = 0")
  case True
  then show ?thesis by (simp add: pot_reserve_le)
next
  case False
  then obtain a where "v = Ref a" "a < length H"
    by (auto simp: fun_cost_def split: val.splits if_splits)
  with assms pot_reserve_Ref[of g a H h] show ?thesis by simp
qed

lemma pot_snapshot:
  assumes "\<not> is_fun ob"
  shows "pot (H @ [ob]) g \<le> Suc (pot H g)"
proof -
  have u: "unregistered (H @ [ob]) g \<subseteq> insert (length H) (unregistered H g)"
    by (auto simp: unregistered_def)
  have "card (unregistered (H @ [ob]) g) \<le> card (insert (length H) (unregistered H g))"
    by (rule card_mono[OF _ u]) simp
  also have "\<dots> \<le> Suc (card (unregistered H g))"
    by (simp add: card_insert_if)
  finally have 1: "card (unregistered (H @ [ob]) g) \<le> Suc (card (unregistered H g))" .
  from assms have "pending_funs (H @ [ob]) g \<subseteq> pending_funs H g"
    by (auto simp: pending_funs_def nth_append split: if_splits)
  then have "card (pending_funs (H @ [ob]) g) \<le> card (pending_funs H g)"
    by (simp add: card_mono)
  with 1 show ?thesis by (simp add: pot_def)
qed

lemma is_fun_snapshot [simp]: "\<not> is_fun (snapshot_object h bs)"
  by (simp add: snapshot_object_def)

lemma runs_pot:
  "adds h H g v i H' g' \<Longrightarrow> pot H' g' \<le> pot H g"
  "sers h H g v c H' g' \<Longrightarrow> pot H' g' \<le> pot H g + fun_cost h H v"
  "eachs h H g vs is H' g' \<Longrightarrow> pot H' g' \<le> pot H g"
  "funs h H g f c H' g' \<Longrightarrow> pot H' g' \<le> Suc (pot H g)"
  "objs h H g proto ps c H' g' \<Longrightarrow> pot H' g' \<le> pot H g"
  "truthys h H g x oi H' g' \<Longrightarrow> pot H' g' \<le> pot H g"
  "prop1 h H g key desc refs ds refs' ds' H' g' \<Longrightarrow> pot H' g' \<le> pot H g"
  "propss h H g ps refs ds refs' ds' H' g' \<Longrightarrow> pot H' g' \<le> pot H g"
proof (induction rule: adds_sers_eachs_funs_objs_truthys_prop1_propss.inducts)
  case (add_miss g v H c H2 g2)
  from pot_reserve_cost[OF add_miss.hyps(1), of H h] add_miss.IH
  show ?case by simp
next
  case (ser_fun a H f g c H1 g1)
  then show ?case by (simp add: fun_cost_def)
next
  case (fun_run H f g ci H1 g1 pi H2 g2 refs descs H3 g3)
  have "pot (H @ [snapshot_object h (case fclosure f of None \<Rightarrow> [] | Some bs \<Rightarrow> bs)]) g
          \<le> Suc (pot H g)"
    by (rule pot_snapshot) simp
  with fun_run.IH show ?case by linarith
qed auto

subsection \<open>Encoding keeps the store closed and only appends to it\<close>

lemma heap_ext_refl: "heap_ext H H"
  by (simp add: heap_ext_def)

lemma heap_ext_iff: "heap_ext H H' = (\<exists>new. H' = H @ new)"
proof
  assume "heap_ext H H'"
  then have "H' = H @ drop (length H) H'"
    by (metis append_take_drop_id heap_ext_def)
  then show "\<exists>new. H' = H @ new" ..
next
  assume "\<exists>new. H' = H @ new"
  then show "heap_ext H H'"
    by (auto simp: heap_ext_def)
qed

lemma heap_ext_length: "heap_ext H H' \<Longrightarrow> length H \<le> length H'"
  by (auto simp: heap_ext_iff)

lemma heap_ext_trans: "heap_ext H H1 \<Longrightarrow> heap_ext H1 H2 \<Longrightarrow> heap_ext H H2"
  by (auto simp: heap_ext_iff)

lemma heap_ext_append: "heap_ext H (H @ new)"
  by (simp add: heap_ext_def)

lemma heap_ext_nth: "heap_ext H H' \<Longrightarrow> a < length H \<Longrightarrow> H' ! a = H ! a"
  by (auto simp: heap_ext_iff nth_append)

lemma list_all_weaken:
  "list_all P xs \<Longrightarrow> (\<And>x. x \<in> set xs \<Longrightarrow> P x \<Longrightarrow> Q x) \<Longrightarrow> list_all Q xs"
  by (simp add: list_all_iff)

lemma valid_val_mono: "length H \<le> length H' \<Longrightarrow> valid_val H v \<Longrightarrow> valid_val H' v"
  by (cases v) auto

lemma valid_prop_mono: "length H \<le> length H' \<Longrightarrow> valid_prop H p \<Longrightarrow> valid_prop H' p"
  by (cases p) (auto intro: valid_val_mono)

lemma valid_props_mono: "length H \<le> length H' \<Longrightarrow> valid_props H ps \<Longrightarrow> valid_props H' ps"
  unfolding valid_props_def by (erule list_all_weaken) (auto intro: valid_prop_mono)

lemma valid_vals_mono:
  "length H \<le> length H' \<Longrightarrow> list_all (valid_val H) vs \<Longrightarrow> list_all (valid_val H') vs"
  by (erule list_all_weaken) (rule valid_val_mono)

lemma valid_bindings_mono:
  "length H \<le> length H' \<Longrightarrow> list_all (\<lambda>(key, v). valid_val H v) bs \<Longrightarrow>
   list_all (\<lambda>(key, v). valid_val H' v) bs"
  by (erule list_all_weaken) (auto intro: valid_val_mono)

lemma valid_fn_mono: "length H \<le> length H' \<Longrightarrow> valid_fn H f \<Longrightarrow> valid_fn H' f"
  unfolding valid_fn_def
  by (intro conjI) (auto intro: valid_props_mono valid_bindings_mono valid_vals_mono)

lemma valid_obj_mono: "length H \<le> length H' \<Longrightarrow> valid_obj H ob \<Longrightarrow> valid_obj H' ob"
  by (cases ob) (auto intro: valid_vals_mono valid_fn_mono valid_val_mono valid_props_mono)

lemma closed_heap_nth: "closed_heap h H \<Longrightarrow> a < length H \<Longrightarrow> valid_obj H (H ! a)"
  by (simp add: closed_heap_def list_all_length)

lemma closed_heap_snapshot:
  assumes "closed_heap h H" and "valid_fn H f"
  shows "closed_heap h (H @ [snapshot_object h (case fclosure f of None \<Rightarrow> [] | Some bs \<Rightarrow> bs)])"
proof -
  let ?H' = "H @ [snapshot_object h (case fclosure f of None \<Rightarrow> [] | Some bs \<Rightarrow> bs)]"
  have le: "length H \<le> length ?H'" by simp
  from assms(1) have "list_all (valid_obj ?H') H"
    by (auto simp: closed_heap_def list_all_iff intro: valid_obj_mono[OF le])
  moreover from assms(1) have vp: "valid_val ?H' (objectPrototype h)"
    by (auto simp: closed_heap_def intro: valid_val_mono[OF le])
  moreover have "valid_obj ?H'
      (snapshot_object h (case fclosure f of None \<Rightarrow> [] | Some bs \<Rightarrow> bs))"
  proof -
    from assms(2)
    have "list_all (\<lambda>(key, v). valid_val H v) (case fclosure f of None \<Rightarrow> [] | Some bs \<Rightarrow> bs)"
      by (simp add: valid_fn_def)
    with le
    have "list_all (\<lambda>(key, v). valid_val ?H' v) (case fclosure f of None \<Rightarrow> [] | Some bs \<Rightarrow> bs)"
      by (rule valid_bindings_mono)
    then have "valid_props ?H'
        (map (\<lambda>(k, v). (k, Data v True True True)) (case fclosure f of None \<Rightarrow> [] | Some bs \<Rightarrow> bs))"
      by (auto simp: valid_props_def list_all_iff)
    with vp show ?thesis
      by (simp add: snapshot_object_def)
  qed
  ultimately show ?thesis by (simp add: closed_heap_def)
qed

lemma runs_closed:
  "adds h H g v i H' g' \<Longrightarrow> closed_heap h H \<Longrightarrow> closed_heap h H' \<and> heap_ext H H'"
  "sers h H g v c H' g' \<Longrightarrow> closed_heap h H \<Longrightarrow> closed_heap h H' \<and> heap_ext H H'"
  "eachs h H g vs is H' g' \<Longrightarrow> closed_heap h H \<Longrightarrow> closed_heap h H' \<and> heap_ext H H'"
  "funs h H g f c H' g' \<Longrightarrow> closed_heap h H \<Longrightarrow> valid_fn H f \<Longrightarrow>
     closed_heap h H' \<and> heap_ext H H'"
  "objs h H g proto ps c H' g' \<Longrightarrow> closed_heap h H \<Longrightarrow> closed_heap h H' \<and> heap_ext H H'"
  "truthys h H g x oi H' g' \<Longrightarrow> closed_heap h H \<Longrightarrow> closed_heap h H' \<and> heap_ext H H'"
  "prop1 h H g key desc refs ds refs' ds' H' g' \<Longrightarrow> closed_heap h H \<Longrightarrow>
     closed_heap h H' \<and> heap_ext H H'"
  "propss h H g ps refs ds refs' ds' H' g' \<Longrightarrow> closed_heap h H \<Longrightarrow>
     closed_heap h H' \<and> heap_ext H H'"
proof (induction rule: adds_sers_eachs_funs_objs_truthys_prop1_propss.inducts)
  case (ser_fun a H f g c H1 g1)
  from ser_fun closed_heap_nth[of h H a]
  have "valid_fn H f" by auto
  with ser_fun show ?case by simp
next
  case (fun_run H f g ci H1 g1 pi H2 g2 refs descs H3 g3)
  let ?H0 = "H @ [snapshot_object h (case fclosure f of None \<Rightarrow> [] | Some bs \<Rightarrow> bs)]"
  from fun_run.prems have c0: "closed_heap h ?H0"
    by (rule closed_heap_snapshot)
  with fun_run have c1: "closed_heap h H1" and e1: "heap_ext ?H0 H1"
    by simp_all
  with fun_run have c2: "closed_heap h H2" and e2: "heap_ext H1 H2"
    by simp_all
  with fun_run have c3: "closed_heap h H3" and e3: "heap_ext H2 H3"
    by simp_all
  have "heap_ext H ?H0" by (rule heap_ext_append)
  with e1 e2 e3 have "heap_ext H H3"
    by (blast intro: heap_ext_trans)
  with c3 show ?case ..
qed (auto intro: heap_ext_refl heap_ext_trans)

subsection \<open>Encoding returns\<close>

lemma add_each_total:
  assumes IH: "\<And>H g v. closed_heap h H \<Longrightarrow> valid_val H v \<Longrightarrow> pot H g < k \<Longrightarrow>
                 \<exists>r. add h k H g v = Some r"
  shows "closed_heap h H \<Longrightarrow> list_all (valid_val H) vs \<Longrightarrow> pot H g < k \<Longrightarrow>
         \<exists>r. add_each h k H g vs = Some r"
proof (induction vs arbitrary: H g)
  case Nil
  then show ?case by simp
next
  case (Cons v vs)
  from Cons.prems IH[of H v g] obtain i H1 g1 where a: "add h k H g v = Some (i, H1, g1)"
    by auto
  note run = add_sound[OF a]
  from runs_closed(1)[OF run Cons.prems(1)] have c: "closed_heap h H1" and e: "heap_ext H H1"
    by simp_all
  from runs_pot(1)[OF run] Cons.prems(3) have p: "pot H1 g1 < k"
    by simp
  from Cons.prems(2) heap_ext_length[OF e] have "list_all (valid_val H1) vs"
    by (auto intro: valid_vals_mono)
  from Cons.IH[OF c this p] a show ?case
    by auto
qed

lemma add_truthy_total:
  assumes IH: "\<And>H g v. closed_heap h H \<Longrightarrow> valid_val H v \<Longrightarrow> pot H g < k \<Longrightarrow>
                 \<exists>r. add h k H g v = Some r"
    and "closed_heap h H" "valid_val H x" "pot H g < k"
  shows "\<exists>r. add_truthy h k H g x = Some r"
  using assms(2-) IH[of H x g] by (auto simp: add_truthy.simps)

lemma add_truthy_run:
  assumes "add_truthy h k H g x = Some (oi, H', g')"
  shows "truthys h H g x oi H' g'"
  using add_sound assms by (rule add_truthy_sound)

lemma serializeProperty_run:
  assumes "serializeProperty h k H g key desc refs ds = Some (refs', ds', H', g')"
  shows "prop1 h H g key desc refs ds refs' ds' H' g'"
  using add_sound assms by (rule serializeProperty_sound)

lemma serializeProperties_run:
  assumes "serializeProperties h k H g ps refs ds = Some (refs', ds', H', g')"
  shows "propss h H g ps refs ds refs' ds' H' g'"
  using add_sound assms by (rule serializeProperties_sound)

lemma serializeProperty_total:
  assumes IH: "\<And>H g v. closed_heap h H \<Longrightarrow> valid_val H v \<Longrightarrow> pot H g < k \<Longrightarrow>
                 \<exists>r. add h k H g v = Some r"
    and c: "closed_heap h H" and v: "valid_prop H desc" and p: "pot H g < k"
  shows "\<exists>r. serializeProperty h k H g key desc refs ds = Some r"
proof (cases desc)
  case (Data x w e cf)
  with v c p IH[of H x g] show ?thesis by auto
next
  case (Accessor gt st e cf)
  have T: "\<exists>r. add_truthy h k H g x = Some r"
    if "closed_heap h H" "valid_val H x" "pot H g < k" for H g x
    using IH that by (rule add_truthy_total)
  from Accessor v c p T[of H gt g] obtain gi H1 g1 where
    1: "add_truthy h k H g gt = Some (gi, H1, g1)"
    by auto
  note run = add_truthy_run[OF 1]
  from runs_closed(6)[OF run c] have c1: "closed_heap h H1" and e: "heap_ext H H1"
    by simp_all
  from runs_pot(6)[OF run] p have p1: "pot H1 g1 < k"
    by simp
  from Accessor v heap_ext_length[OF e] have "valid_val H1 st"
    by (auto intro: valid_val_mono)
  from T[OF c1 this p1] obtain r where "add_truthy h k H1 g1 st = Some r" ..
  with 1 Accessor show ?thesis
    by (cases r) auto
qed

lemma serializeProperties_total:
  assumes IH: "\<And>H g v. closed_heap h H \<Longrightarrow> valid_val H v \<Longrightarrow> pot H g < k \<Longrightarrow>
                 \<exists>r. add h k H g v = Some r"
  shows "closed_heap h H \<Longrightarrow> valid_props H ps \<Longrightarrow> pot H g < k \<Longrightarrow>
         \<exists>r. serializeProperties h k H g ps refs ds = Some r"
proof (induction ps arbitrary: H g refs ds)
  case Nil
  then show ?case by simp
next
  case (Cons kd rest)
  obtain key desc where kd: "kd = (key, desc)" by (cases kd)
  from Cons.prems(2) kd have vd: "valid_prop H desc" and vr: "valid_props H rest"
    by (simp_all add: valid_props_def)
  show ?case
  proof (cases "key = ''__closure''")
    case True
    with Cons.IH[OF Cons.prems(1) vr Cons.prems(3)] kd show ?thesis by simp
  next
    case False
    have "\<exists>r. serializeProperty h k H g key desc refs ds = Some r"
      using IH Cons.prems(1) vd Cons.prems(3) by (rule serializeProperty_total)
    then obtain refs1 ds1 H1 g1 where
      1: "serializeProperty h k H g key desc refs ds = Some (refs1, ds1, H1, g1)"
      by auto
    note run = serializeProperty_run[OF 1]
    from runs_closed(7)[OF run Cons.prems(1)] have c1: "closed_heap h H1" and e: "heap_ext H H1"
      by simp_all
    from runs_pot(7)[OF run] Cons.prems(3) have p1: "pot H1 g1 < k"
      by simp
    from vr heap_ext_length[OF e] have "valid_props H1 rest"
      by (auto intro: valid_props_mono)
    from Cons.IH[OF c1 this p1, of refs1 ds1] 1 False kd show ?thesis
      by auto
  qed
qed

lemma serializeObject_total:
  assumes IH: "\<And>H g v. closed_heap h H \<Longrightarrow> valid_val H v \<Longrightarrow> pot H g < k \<Longrightarrow>
                 \<exists>r. add h k H g v = Some r"
    and c: "closed_heap h H" and v: "valid_val H proto" "valid_props H ps" and p: "pot H g < k"
  shows "\<exists>r. serializeObject h k H g proto ps = Some r"
proof -
  from IH[OF c v(1) p] obtain pi H1 g1 where 1: "add h k H g proto = Some (pi, H1, g1)"
    by auto
  note run = add_sound[OF 1]
  from runs_closed(1)[OF run c] have c1: "closed_heap h H1" and e: "heap_ext H H1"
    by simp_all
  from runs_pot(1)[OF run] p have p1: "pot H1 g1 < k"
    by simp
  from v(2) heap_ext_length[OF e] have v1: "valid_props H1 ps"
    by (auto intro: valid_props_mono)
  have "\<exists>r. serializeProperties h k H1 g1 ps [] [] = Some r"
    using IH c1 v1 p1 by (rule serializeProperties_total)
  with 1 show ?thesis
    by (auto simp: serializeObject.simps)
qed

lemma valid_own_value: "valid_props H ps \<Longrightarrow> valid_val H (own_value ps key)"
proof -
  assume v: "valid_props H ps"
  show ?thesis
  proof (cases "map_of ps key")
    case None
    then show ?thesis by simp
  next
    case (Some p)
    then have "(key, p) \<in> set ps" by (rule map_of_SomeD)
    with v have "valid_prop H p"
      by (auto simp: valid_props_def list_all_iff)
    with Some show ?thesis by (cases p) auto
  qed
qed

lemma serializeFunction_total:
  assumes IH: "\<And>H g v. closed_heap h H \<Longrightarrow> valid_val H v \<Longrightarrow> pot H g < k \<Longrightarrow>
                 \<exists>r. add h k H g v = Some r"
    and c: "closed_heap h H" and v: "valid_fn H f" and p: "Suc (pot H g) < k"
  shows "\<exists>r. serializeFunction h k H g f = Some r"
proof -
  let ?H0 = "H @ [snapshot_object h (case fclosure f of None \<Rightarrow> [] | Some bs \<Rightarrow> bs)]"
  have c0: "closed_heap h ?H0"
    using c v by (rule closed_heap_snapshot)
  have "pot ?H0 g \<le> Suc (pot H g)"
    by (rule pot_snapshot) simp
  with p have p0: "pot ?H0 g < k" by simp
  have "valid_val ?H0 (Ref (length H))" by simp
  from IH[OF c0 this p0] obtain ci H1 g1 where
    1: "add h k ?H0 g (Ref (length H)) = Some (ci, H1, g1)"
    by auto
  note run1 = add_sound[OF 1]
  from runs_closed(1)[OF run1 c0] have c1: "closed_heap h H1" and e1: "heap_ext ?H0 H1"
    by simp_all
  from runs_pot(1)[OF run1] p0 have p1: "pot H1 g1 < k"
    by simp
  from heap_ext_length[OF e1] have le1: "length H \<le> length H1"
    by simp
  from v have vp: "valid_props H (fprops f)"
    by (simp add: valid_fn_def)
  then have "valid_val H1 (own_value (fprops f) ''prototype'')"
    by (intro valid_val_mono[OF le1] valid_own_value)
  from IH[OF c1 this p1] obtain pi H2 g2 where
    2: "add h k H1 g1 (own_value (fprops f) ''prototype'') = Some (pi, H2, g2)"
    by auto
  note run2 = add_sound[OF 2]
  from runs_closed(1)[OF run2 c1] have c2: "closed_heap h H2" and e2: "heap_ext H1 H2"
    by simp_all
  from runs_pot(1)[OF run2] p1 have p2: "pot H2 g2 < k"
    by simp
  from vp le1 heap_ext_length[OF e2] have v2: "valid_props H2 (fprops f)"
    by (auto intro: valid_props_mono)
  have "\<exists>r. serializeProperties h k H2 g2 (fprops f) [] [] = Some r"
    using IH c2 v2 p2 by (rule serializeProperties_total)
  with 1 2 show ?thesis
    by (auto simp: serializeFunction.simps)
qed

lemma serialize_value_total:
  assumes IH: "\<And>H g v. closed_heap h H \<Longrightarrow> valid_val H v \<Longrightarrow> pot H g < k \<Longrightarrow>
                 \<exists>r. add h k H g v = Some r"
    and c: "closed_heap h H" and a: "a < length H" and p: "pot H g + fun_cost h H (Ref a) < k"
  shows "\<exists>r. serialize_value h k H g (Ref a) = Some r"
proof (cases "getNameOfBuiltin h (Ref a)")
  case (Some name)
  then show ?thesis by (simp add: serialize_value.simps)
next
  case None
  note vo = closed_heap_nth[OF c a]
  show ?thesis
  proof (cases "H ! a")
    case (ArrayObj vs)
    with vo have "list_all (valid_val H) vs" by simp
    moreover from p have "pot H g < k" by simp
    ultimately have "\<exists>r. add_each h k H g vs = Some r"
      using IH c by (intro add_each_total)
    with None a ArrayObj show ?thesis
      by (auto simp: serialize_value.simps)
  next
    case (FunObj f)
    with vo have vf: "valid_fn H f" by simp
    from p None a FunObj have "Suc (pot H g) < k"
      by (simp add: fun_cost_def)
    have "\<exists>r. serializeFunction h k H g f = Some r"
      using IH c vf \<open>Suc (pot H g) < k\<close> by (rule serializeFunction_total)
    with None a FunObj show ?thesis
      by (auto simp: serialize_value.simps)
  next
    case (DateObj s)
    with None a show ?thesis by (simp add: serialize_value.simps)
  next
    case (RegExpObj s)
    with None a show ?thesis by (simp add: serialize_value.simps)
  next
    case (PlainObj proto ps)
    with vo have v: "valid_val H proto" "valid_props H ps" by simp_all
    from p have "pot H g < k" by simp
    have "\<exists>r. serializeObject h k H g proto ps = Some r"
      using IH c v \<open>pot H g < k\<close> by (rule serializeObject_total)
    with None a PlainObj show ?thesis
      by (auto simp: serialize_value.simps)
  qed
qed

lemma add_total:
  "closed_heap h H \<Longrightarrow> valid_val H v \<Longrightarrow> pot H g < n \<Longrightarrow> \<exists>r. add h n H g v = Some r"
proof (induction n arbitrary: H g v)
  case 0
  then show ?case by simp
next
  case (Suc k)
  show ?case
  proof (cases "find_element (indexMap g) v")
    case (Some i)
    then show ?thesis by simp
  next
    case None
    show ?thesis
    proof (cases v)
      case (Prim p)
      have "\<exists>r. serialize_value h k H (reserve g v) v = Some r"
        unfolding Prim by (cases "getNameOfBuiltin h (Prim p)") (simp_all add: serialize_value.simps)
      with None show ?thesis by auto
    next
      case (Ref a)
      with Suc.prems(2) have a: "a < length H" by simp
      from pot_reserve_Ref[OF None[unfolded Ref] a, of h] Suc.prems(3)
      have p: "pot H (reserve g (Ref a)) + fun_cost h H (Ref a) < k"
        by simp
      have "\<exists>r. serialize_value h k H (reserve g (Ref a)) (Ref a) = Some r"
        using Suc.IH Suc.prems(1) a p by (rule serialize_value_total)
      with None Ref show ?thesis by auto
    qed
  qed
qed

lemma pot_new_graph: "pot H new_graph = identities H"
proof -
  have 1: "unregistered H new_graph = {..<length H}"
    by (auto simp: unregistered_def new_graph_def)
  have 2: "pending_funs H new_graph = {a. a < length H \<and> is_fun (H ! a)}"
    by (auto simp: pending_funs_def new_graph_def)
  have "card {a. a < length H \<and> is_fun (H ! a)} = length (filter is_fun H)"
    by (simp add: length_filter_conv_card)
  with 1 2 show ?thesis
    by (simp add: pot_def identities_def)
qed

section \<open>Shapes of plain data\<close>

lemma plain_props_inj: "plain_props kvs = plain_props kvs' \<Longrightarrow> kvs = kvs'"
proof (induction kvs arbitrary: kvs')
  case Nil
  then show ?case by (simp add: plain_props_def)
next
  case (Cons kv kvs)
  then obtain kv' rest where k: "kvs' = kv' # rest"
    by (cases kvs') (auto simp: plain_props_def)
  with Cons.prems have "kv = kv'" and "plain_props kvs = plain_props rest"
    by (auto simp: plain_props_def split: prod.splits)
  with Cons.IH k show ?case by simp
qed

lemma map_of_plain_props_fst: "map fst (plain_props kvs) = map fst kvs"
  by (induction kvs) (auto simp: plain_props_def)

lemma pairs_eq: "map fst xs = map fst ys \<Longrightarrow> map snd xs = map snd ys \<Longrightarrow> xs = ys"
  by (metis zip_map_fst_snd)

lemma jdepth_arr: "j \<in> set js \<Longrightarrow> jdepth j < jdepth (JArr js)"
proof -
  assume "j \<in> set js"
  then have "jdepth j \<le> Max (set (0 # map jdepth js))"
    by (intro Max_ge) auto
  then show ?thesis by simp
qed

lemma jdepth_obj: "j \<in> set (map snd fs) \<Longrightarrow> jdepth j < jdepth (JObj fs)"
proof -
  assume "j \<in> set (map snd fs)"
  then have "jdepth j \<le> Max (set (1 # map jdepth (map snd fs)))"
    by (intro Max_ge) auto
  then show ?thesis by simp
qed

lemma jdepth_obj_ge: "2 \<le> jdepth (JObj fs)"
proof -
  have "1 \<le> Max (set (1 # map jdepth (map snd fs)))"
    by (intro Max_ge) auto
  then show ?thesis by simp
qed

lemma list_all2_unique:
  "list_all2 (\<lambda>x y. R x y \<and> (\<forall>y'. R' x y' \<longrightarrow> y = y')) xs ys \<Longrightarrow> list_all2 R' xs ys' \<Longrightarrow>
   ys = ys'"
proof (induction xs ys arbitrary: ys' rule: list_all2_induct)
  case Nil
  then show ?case by simp
next
  case (Cons x xs y ys)
  from Cons.prems obtain z zs where "ys' = z # zs" "R' x z" "list_all2 R' xs zs"
    by (cases ys') auto
  with Cons show ?case by auto
qed

subsection \<open>A value has one shape\<close>

lemma reads_functional:
  "reads P B S H v j \<Longrightarrow> reads P B S H v j' \<Longrightarrow> j = j'"
proof (induction arbitrary: j' rule: reads.induct)
  case (reads_prim p)
  from reads_prim.prems reads_prim.hyps show ?case
    by (cases rule: reads.cases) auto
next
  case (reads_arr a vs js)
  from reads_arr.prems show ?case
  proof (cases rule: reads.cases)
    case (reads_arr vs' js')
    with reads_arr.hyps have "list_all2 (reads P B S H) vs js'"
      by simp
    with reads_arr.IH have "js = js'"
      by (rule list_all2_unique)
    with reads_arr show ?thesis by simp
  next
    case (reads_obj kvs fs)
    with reads_arr.hyps show ?thesis by simp
  next
    case reads_self
    with reads_arr.hyps show ?thesis by simp
  qed
next
  case (reads_obj a kvs fs)
  from reads_obj.prems show ?case
  proof (cases rule: reads.cases)
    case (reads_arr vs' js')
    with reads_obj.hyps show ?thesis by simp
  next
    case other: (reads_obj kvs' fs')
    with reads_obj.hyps have k: "kvs' = kvs"
      by (auto dest: plain_props_inj)
    with other have "list_all2 (reads P B S H) (map snd kvs) (map snd fs')"
      by simp
    with reads_obj.IH have "map snd fs = map snd fs'"
      by (rule list_all2_unique)
    moreover from other k reads_obj.hyps have "map fst fs = map fst fs'"
      by simp
    ultimately have "fs = fs'" by (rule pairs_eq[rotated])
    with other show ?thesis by simp
  next
    case reads_self
    with reads_obj.hyps show ?thesis by simp
  qed
next
  case (reads_self s)
  from reads_self.prems reads_self.hyps show ?case
    by (cases rule: reads.cases) auto
qed

lemma repr_functional:
  "repr nm Q Si C i j \<Longrightarrow> repr nm Q Si C i j' \<Longrightarrow> j = j'"
proof (induction arbitrary: j' rule: repr.induct)
  case (repr_prim i p)
  from repr_prim.prems repr_prim.hyps show ?case
    by (cases rule: repr.cases) auto
next
  case (repr_arr i refs js)
  from repr_arr.prems show ?case
  proof (cases rule: repr.cases)
    case (repr_arr refs' js')
    with repr_arr.hyps have "list_all2 (repr nm Q Si C) refs js'"
      by simp
    with repr_arr.IH have "js = js'"
      by (rule list_all2_unique)
    with repr_arr show ?thesis by simp
  qed (use repr_arr.hyps in auto)
next
  case (repr_obj i pi krs fs)
  from repr_obj.prems show ?case
  proof (cases rule: repr.cases)
    case other: (repr_obj pi' krs' fs')
    with repr_obj.hyps have k: "krs' = krs"
      by simp
    with other have "list_all2 (repr nm Q Si C) (map snd krs) (map snd fs')"
      by simp
    with repr_obj.IH have "map snd fs = map snd fs'"
      by (rule list_all2_unique)
    moreover from other k repr_obj.hyps have "map fst fs = map fst fs'"
      by simp
    ultimately have "fs = fs'" by (rule pairs_eq[rotated])
    with other show ?thesis by simp
  qed (use repr_obj.hyps in auto)
next
  case (repr_self s)
  from repr_self.prems repr_self.hyps show ?case
    by (cases rule: repr.cases) auto
qed

subsection \<open>Shapes survive changes elsewhere\<close>

lemma reads_frame:
  "reads P B S H v j \<Longrightarrow> length H \<le> length H' \<Longrightarrow>
   (\<And>a. a < length H \<Longrightarrow> Ref a \<notin> B \<Longrightarrow> H' ! a = H ! a) \<Longrightarrow> reads P B S H' v j"
proof (induction rule: reads.induct)
  case (reads_prim p)
  then show ?case by (auto intro: reads.reads_prim)
next
  case (reads_arr a vs js)
  from reads_arr.IH reads_arr.prems have "list_all2 (reads P B S H') vs js"
    by (auto elim!: list_all2_mono)
  with reads_arr.hyps reads_arr.prems show ?case
    by (auto intro!: reads.reads_arr)
next
  case (reads_obj a kvs fs)
  from reads_obj.IH reads_obj.prems
  have "list_all2 (reads P B S H') (map snd kvs) (map snd fs)"
    by (auto elim!: list_all2_mono)
  with reads_obj.hyps reads_obj.prems show ?case
    by (auto intro!: reads.reads_obj)
next
  case (reads_self s)
  then show ?case by (auto intro: reads.reads_self)
qed

lemma reads_ext: "reads P B S H v j \<Longrightarrow> heap_ext H H' \<Longrightarrow> reads P B S H' v j"
  by (erule reads_frame) (auto simp: heap_ext_length heap_ext_nth)

lemma reads_weaken:
  "reads P B S H v j \<Longrightarrow> B' \<subseteq> B \<Longrightarrow> (\<And>s. S = Some s \<Longrightarrow> s \<in> B') \<Longrightarrow> reads P B' S H v j"
proof (induction rule: reads.induct)
  case (reads_prim p)
  then show ?case by (auto intro: reads.reads_prim)
next
  case (reads_arr a vs js)
  from reads_arr.IH reads_arr.prems have "list_all2 (reads P B' S H) vs js"
    by (auto elim!: list_all2_mono)
  with reads_arr.hyps reads_arr.prems show ?case
    by (auto intro!: reads.reads_arr)
next
  case (reads_obj a kvs fs)
  from reads_obj.IH reads_obj.prems
  have "list_all2 (reads P B' S H) (map snd kvs) (map snd fs)"
    by (auto elim!: list_all2_mono)
  with reads_obj.hyps reads_obj.prems show ?case
    by (auto intro!: reads.reads_obj)
next
  case (reads_self s)
  then show ?case by (auto intro: reads.reads_self)
qed

lemma reads_valid: "reads P B S H v j \<Longrightarrow> v \<notin> B \<or> j = JSelf"
  by (induction rule: reads.induct) auto

lemma repr_frame:
  "repr nm Q Si C i j \<Longrightarrow> length C \<le> length C' \<Longrightarrow>
   (\<And>k. k < length C \<Longrightarrow> C ! k \<noteq> None \<Longrightarrow> C' ! k = C ! k) \<Longrightarrow> repr nm Q Si C' i j"
proof (induction rule: repr.induct)
  case (repr_prim i p)
  then show ?case by (auto intro!: repr.repr_prim)
next
  case (repr_arr i refs js)
  from repr_arr.IH repr_arr.prems have "list_all2 (repr nm Q Si C') refs js"
    by (auto elim!: list_all2_mono)
  with repr_arr.hyps repr_arr.prems show ?case
    by (auto intro!: repr.repr_arr)
next
  case (repr_obj i pi krs fs)
  from repr_obj.IH repr_obj.prems
  have "list_all2 (repr nm Q Si C') (map snd krs) (map snd fs)"
    by (auto elim!: list_all2_mono)
  with repr_obj.hyps repr_obj.prems show ?case
    by (auto intro!: repr.repr_obj)
next
  case (repr_self s)
  then show ?case by (auto intro: repr.repr_self)
qed

lemma repr_weaken:
  "repr nm Q Si C i j \<Longrightarrow> Q' \<subseteq> Q \<Longrightarrow> (\<And>s. Si = Some s \<Longrightarrow> s \<in> Q') \<Longrightarrow> repr nm Q' Si C i j"
proof (induction rule: repr.induct)
  case (repr_prim i p)
  then show ?case by (auto intro!: repr.repr_prim)
next
  case (repr_arr i refs js)
  from repr_arr.IH repr_arr.prems have "list_all2 (repr nm Q' Si C) refs js"
    by (auto elim!: list_all2_mono)
  with repr_arr.hyps repr_arr.prems show ?case
    by (auto intro!: repr.repr_arr)
next
  case (repr_obj i pi krs fs)
  from repr_obj.IH repr_obj.prems
  have "list_all2 (repr nm Q' Si C) (map snd krs) (map snd fs)"
    by (auto elim!: list_all2_mono)
  with repr_obj.hyps repr_obj.prems show ?case
    by (auto intro!: repr.repr_obj)
next
  case (repr_self s)
  then show ?case by (auto intro: repr.repr_self)
qed

subsection \<open>A shape does not contain a value of a larger shape\<close>

lemma list_all2_set2: "list_all2 R xs ys \<Longrightarrow> R' = (\<lambda>x y. y \<in> set ys \<and> R x y) \<Longrightarrow> list_all2 R' xs ys"
  by (auto simp: list_all2_conv_all_nth)

lemma reads_avoid:
  "reads P B S H v j \<Longrightarrow> reads P B S H w jw \<Longrightarrow> jdepth j < jdepth jw \<Longrightarrow>
   reads P (insert w B) S H v j"
proof (induction rule: reads.induct)
  case (reads_prim p)
  have "w \<noteq> Prim p"
  proof
    assume "w = Prim p"
    with reads_prim have "jw = JPrim p"
      by (auto dest: reads_functional intro: reads.reads_prim)
    with reads_prim.prems show False by simp
  qed
  with reads_prim.hyps show ?case by (auto intro: reads.reads_prim)
next
  case (reads_arr a vs js)
  have "w \<noteq> Ref a"
  proof
    assume "w = Ref a"
    moreover from reads_arr.IH have "list_all2 (reads P B S H) vs js"
      by (auto elim!: list_all2_mono)
    with reads_arr.hyps have "reads P B S H (Ref a) (JArr js)"
      by (auto intro!: reads.reads_arr)
    ultimately have "jw = JArr js"
      using reads_arr.prems(1) by (auto dest: reads_functional)
    with reads_arr.prems show False by simp
  qed
  moreover have "list_all2 (reads P (insert w B) S H) vs js"
  proof -
    from reads_arr.IH
    have "list_all2 (\<lambda>x y. y \<in> set js \<and> (reads P B S H x y \<and>
        (reads P B S H w jw \<longrightarrow> jdepth y < jdepth jw \<longrightarrow> reads P (insert w B) S H x y))) vs js"
      by (rule list_all2_set2) simp
    moreover have "jdepth y < jdepth jw" if "y \<in> set js" for y
      using jdepth_arr[OF that] reads_arr.prems(2) by linarith
    ultimately show ?thesis
      using reads_arr.prems(1) by (auto elim!: list_all2_mono simp del: jdepth.simps)
  qed
  ultimately show ?case
    using reads_arr.hyps by (auto intro!: reads.reads_arr)
next
  case (reads_obj a kvs fs)
  have "w \<noteq> Ref a"
  proof
    assume "w = Ref a"
    moreover from reads_obj.IH have "list_all2 (reads P B S H) (map snd kvs) (map snd fs)"
      by (auto elim!: list_all2_mono)
    with reads_obj.hyps have "reads P B S H (Ref a) (JObj fs)"
      by (auto intro!: reads.reads_obj)
    ultimately have "jw = JObj fs"
      using reads_obj.prems(1) by (auto dest: reads_functional)
    with reads_obj.prems show False by simp
  qed
  moreover have "list_all2 (reads P (insert w B) S H) (map snd kvs) (map snd fs)"
  proof -
    from reads_obj.IH
    have "list_all2 (\<lambda>x y. y \<in> set (map snd fs) \<and> (reads P B S H x y \<and>
        (reads P B S H w jw \<longrightarrow> jdepth y < jdepth jw \<longrightarrow> reads P (insert w B) S H x y)))
        (map snd kvs) (map snd fs)"
      by (rule list_all2_set2) simp
    moreover have "jdepth y < jdepth jw" if "y \<in> set (map snd fs)" for y
      using jdepth_obj[OF that] reads_obj.prems(2) by linarith
    ultimately show ?thesis
      using reads_obj.prems(1) by (auto elim!: list_all2_mono simp del: jdepth.simps)
  qed
  ultimately show ?case
    using reads_obj.hyps by (auto intro!: reads.reads_obj)
next
  case (reads_self s)
  then show ?case by (auto intro: reads.reads_self)
qed

lemma repr_avoid:
  "repr nm Q Si C i j \<Longrightarrow> repr nm Q Si C k jk \<Longrightarrow> jdepth j < jdepth jk \<Longrightarrow>
   repr nm (insert k Q) Si C i j"
proof (induction rule: repr.induct)
  case (repr_prim i p)
  have "k \<noteq> i"
  proof
    assume "k = i"
    with repr_prim have "jk = JPrim p"
      by (auto dest: repr_functional intro: repr.repr_prim)
    with repr_prim.prems show False by simp
  qed
  with repr_prim.hyps show ?case by (auto intro: repr.repr_prim)
next
  case (repr_arr i refs js)
  have "k \<noteq> i"
  proof
    assume "k = i"
    moreover from repr_arr.IH have "list_all2 (repr nm Q Si C) refs js"
      by (auto elim!: list_all2_mono)
    with repr_arr.hyps have "repr nm Q Si C i (JArr js)"
      by (auto intro!: repr.repr_arr)
    ultimately have "jk = JArr js"
      using repr_arr.prems(1) by (auto dest: repr_functional)
    with repr_arr.prems show False by simp
  qed
  moreover have "list_all2 (repr nm (insert k Q) Si C) refs js"
  proof -
    from repr_arr.IH
    have "list_all2 (\<lambda>x y. y \<in> set js \<and> (repr nm Q Si C x y \<and>
        (repr nm Q Si C k jk \<longrightarrow> jdepth y < jdepth jk \<longrightarrow> repr nm (insert k Q) Si C x y))) refs js"
      by (rule list_all2_set2) simp
    moreover have "jdepth y < jdepth jk" if "y \<in> set js" for y
      using jdepth_arr[OF that] repr_arr.prems(2) by linarith
    ultimately show ?thesis
      using repr_arr.prems(1) by (auto elim!: list_all2_mono simp del: jdepth.simps)
  qed
  ultimately show ?case
    using repr_arr.hyps by (auto intro!: repr.repr_arr)
next
  case (repr_obj i pi krs fs)
  have "k \<noteq> i"
  proof
    assume "k = i"
    moreover from repr_obj.IH have "list_all2 (repr nm Q Si C) (map snd krs) (map snd fs)"
      by (auto elim!: list_all2_mono)
    with repr_obj.hyps have "repr nm Q Si C i (JObj fs)"
      by (auto intro!: repr.repr_obj)
    ultimately have "jk = JObj fs"
      using repr_obj.prems(1) by (auto dest: repr_functional)
    with repr_obj.prems show False by simp
  qed
  moreover have "list_all2 (repr nm (insert k Q) Si C) (map snd krs) (map snd fs)"
  proof -
    from repr_obj.IH
    have "list_all2 (\<lambda>x y. y \<in> set (map snd fs) \<and> (repr nm Q Si C x y \<and>
        (repr nm Q Si C k jk \<longrightarrow> jdepth y < jdepth jk \<longrightarrow> repr nm (insert k Q) Si C x y)))
        (map snd krs) (map snd fs)"
      by (rule list_all2_set2) simp
    moreover have "jdepth y < jdepth jk" if "y \<in> set (map snd fs)" for y
      using jdepth_obj[OF that] repr_obj.prems(2) by linarith
    ultimately show ?thesis
      using repr_obj.prems(1) by (auto elim!: list_all2_mono simp del: jdepth.simps)
  qed
  ultimately show ?case
    using repr_obj.hyps by (auto intro!: repr.repr_obj)
next
  case (repr_self s)
  then show ?case by (auto intro: repr.repr_self)
qed

subsection \<open>Encoding plain data\<close>

lemma distinct_snd_unique:
  "distinct (map snd m) \<Longrightarrow> (w, k) \<in> set m \<Longrightarrow> (w', k) \<in> set m \<Longrightarrow> w = w'"
  by (induction m) force+

lemma table_ok_index: "table_ok g \<Longrightarrow> (w, k) \<in> set (indexMap g) \<Longrightarrow> k < length (contentArray g)"
proof -
  assume t: "table_ok g" and m: "(w, k) \<in> set (indexMap g)"
  from m have "k \<in> set (map snd (indexMap g))" by force
  with t show ?thesis by (simp add: table_ok_def)
qed

lemma table_ok_unique:
  "table_ok g \<Longrightarrow> (w, k) \<in> set (indexMap g) \<Longrightarrow> (w', k) \<in> set (indexMap g) \<Longrightarrow> w = w'"
  by (rule distinct_snd_unique[OF table_ok_distinct])

lemma update_fresh: "k \<notin> fst ` set al \<Longrightarrow> AList.update k v al = al @ [(k, v)]"
  by (induction al) auto

lemma enc_step_refl: "enc_step g g"
  by (auto simp: enc_step_def extends_refl)

lemma enc_step_length: "enc_step g g' \<Longrightarrow> length (contentArray g) \<le> length (contentArray g')"
  by (simp add: enc_step_def extends_def)

lemma enc_step_nth:
  "enc_step g g' \<Longrightarrow> k < length (contentArray g) \<Longrightarrow> contentArray g' ! k = contentArray g ! k"
  by (metis enc_step_def nth_take)

lemma enc_step_extends: "enc_step g g' \<Longrightarrow> extends g g'"
  by (simp add: enc_step_def)

lemma enc_step_pending:
  "enc_step g g' \<Longrightarrow> (w, k) \<in> set (indexMap g') \<Longrightarrow> contentArray g' ! k = None \<Longrightarrow>
   (w, k) \<in> set (indexMap g)"
  by (auto simp: enc_step_def)

lemma enc_step_trans:
  assumes a: "enc_step g g1" and b: "enc_step g1 g2" and t: "table_ok g1"
  shows "enc_step g g2"
proof -
  have e: "extends g g2"
    using a b by (auto intro: extends_trans enc_step_extends)
  have "take (length (contentArray g)) (contentArray g2) =
      take (length (contentArray g)) (take (length (contentArray g1)) (contentArray g2))"
    using enc_step_length[OF a] by (simp add: min_def)
  also have "\<dots> = contentArray g"
    using a b by (simp add: enc_step_def)
  finally have tk: "take (length (contentArray g)) (contentArray g2) = contentArray g" .
  have "(w, k) \<in> set (indexMap g)"
    if m: "(w, k) \<in> set (indexMap g2)" and n: "contentArray g2 ! k = None" for w k
  proof -
    from enc_step_pending[OF b m n] have m1: "(w, k) \<in> set (indexMap g1)" .
    from table_ok_index[OF t m1] have "contentArray g2 ! k = contentArray g1 ! k"
      by (rule enc_step_nth[OF b])
    with n have "contentArray g1 ! k = None" by simp
    with a m1 show ?thesis by (rule enc_step_pending)
  qed
  with e tk show ?thesis
    by (auto simp: enc_step_def)
qed

lemma pend_ok_mono: "pend_ok h S H g d \<Longrightarrow> d' \<le> d \<Longrightarrow> pend_ok h S H g d'"
  by (fastforce simp: pend_ok_def)

lemma pend_ok_step:
  assumes p: "pend_ok h S H g d" and s: "enc_step g g'" and t: "table_ok g"
  shows "pend_ok h S H g' d"
  unfolding pend_ok_def
proof (intro ballI, clarify)
  fix w k j
  assume m: "(w, k) \<in> set (indexMap g')" and n: "contentArray g' ! k = None"
    and ns: "S \<noteq> Some w"
    and r: "reads (objectPrototype h) (avoid h S) S H w j"
  from enc_step_pending[OF s m n] have m0: "(w, k) \<in> set (indexMap g)" .
  from enc_step_nth[OF s table_ok_index[OF t m0]] n have "contentArray g ! k = None"
    by simp
  with p m0 ns r show "d < jdepth j"
    by (auto simp: pend_ok_def)
qed

lemma repr_step:
  "repr nm Q Si (contentArray g) i j \<Longrightarrow> enc_step g g' \<Longrightarrow> repr nm Q Si (contentArray g') i j"
  by (erule repr_frame) (auto simp: enc_step_length enc_step_nth)

lemma repr_fill:
  assumes r: "repr nm Q Si C i j" and n: "C ! k0 = None"
  shows "repr nm Q Si (C[k0 := x]) i j"
proof (rule repr_frame[OF r])
  show "length C \<le> length (C[k0 := x])" by simp
  fix k
  assume "C ! k \<noteq> None"
  with n have "k0 \<noteq> k" by auto
  then show "C[k0 := x] ! k = C ! k" by simp
qed

lemma repr_valid: "repr nm Q Si C i j \<Longrightarrow> i \<notin> Q \<or> j = JSelf"
  by (induction rule: repr.induct) auto

lemma enc_inv_table: "enc_inv h nm S Si H g \<Longrightarrow> table_ok g"
  by (simp add: enc_inv_def)

lemma enc_inv_done:
  "enc_inv h nm S Si H g \<Longrightarrow> (w, k) \<in> set (indexMap g) \<Longrightarrow> contentArray g ! k \<noteq> None \<Longrightarrow>
   reads (objectPrototype h) (avoid h S) S H w j \<Longrightarrow> closure_free j \<Longrightarrow>
   repr nm (set_option Si) Si (contentArray g) k j"
  by (auto simp: enc_inv_def)

lemma enc_inv_proto:
  "enc_inv h nm S Si H g \<Longrightarrow> (objectPrototype h, k) \<in> set (indexMap g) \<Longrightarrow>
   contentArray g ! k = Some (KBuiltin nm)"
  by (auto simp: enc_inv_def)

lemma enc_inv_self:
  "enc_inv h nm S Si H g \<Longrightarrow> (w, k) \<in> set (indexMap g) \<Longrightarrow> S = Some w \<Longrightarrow> Si = Some k"
  by (auto simp: enc_inv_def)

lemma enc_inv_found:
  "enc_inv h nm S Si H g \<Longrightarrow> S = Some s \<Longrightarrow> find_element (indexMap g) s \<noteq> None"
  by (auto simp: enc_inv_def)

lemma enc_inv_unregistered: "enc_inv h nm S Si H g \<Longrightarrow> S = Some s \<Longrightarrow> s \<notin> registered h"
  by (auto simp: enc_inv_def)

lemma enc_inv_bound: "enc_inv h nm S Si H g \<Longrightarrow> Si = Some k \<Longrightarrow> k < length (contentArray g)"
  by (auto simp: enc_inv_def)

lemma enc_invI:
  assumes "table_ok g"
    and "\<And>w k j. (w, k) \<in> set (indexMap g) \<Longrightarrow> contentArray g ! k \<noteq> None \<Longrightarrow>
           reads (objectPrototype h) (avoid h S) S H w j \<Longrightarrow> closure_free j \<Longrightarrow>
           repr nm (set_option Si) Si (contentArray g) k j"
    and "\<And>k. (objectPrototype h, k) \<in> set (indexMap g) \<Longrightarrow>
           contentArray g ! k = Some (KBuiltin nm)"
    and "\<And>w k. (w, k) \<in> set (indexMap g) \<Longrightarrow> S = Some w \<Longrightarrow> Si = Some k"
    and "\<And>s. S = Some s \<Longrightarrow> find_element (indexMap g) s \<noteq> None"
    and "\<And>s. S = Some s \<Longrightarrow> s \<notin> registered h"
    and "\<And>k. Si = Some k \<Longrightarrow> k < length (contentArray g)"
  shows "enc_inv h nm S Si H g"
  unfolding enc_inv_def using assms by blast

text \<open>A value that is in the table.\<close>

lemma add_hit_plain:
  assumes f: "find_element (indexMap g) v = Some k"
    and inv: "enc_inv h nm S Si H g"
    and p: "pend_ok h S H g (jdepth j)"
    and r: "reads (objectPrototype h) (avoid h S) S H v j"
    and c: "closure_free j"
  shows "add h n H g v = Some (k, H, g) \<and> repr nm (set_option Si) Si (contentArray g) k j"
proof
  from f show "add h n H g v = Some (k, H, g)"
    by (cases n) simp_all
  from f have m: "(v, k) \<in> set (indexMap g)"
    by (rule find_element_mem)
  show "repr nm (set_option Si) Si (contentArray g) k j"
  proof (cases "contentArray g ! k = None")
    case False
    from inv m False r c show ?thesis by (rule enc_inv_done)
  next
    case True
    with p m r have s: "S = Some v"
      by (auto simp: pend_ok_def)
    with inv m have si: "Si = Some k" by (rule enc_inv_self)
    from s have "v \<in> avoid h S" by (simp add: avoid_def)
    with reads_valid[OF r] have "j = JSelf" by simp
    with si show ?thesis by (auto intro: repr_self)
  qed
qed

text \<open>Reserving an index for a value, and filling it in.\<close>

lemma find_element_reserve_other:
  "find_element (indexMap g) s \<noteq> None \<Longrightarrow> find_element (indexMap (reserve g v)) s \<noteq> None"
  by (auto simp: reserve_def find_element_append split: option.splits)

lemma enc_inv_reserve:
  assumes inv: "enc_inv h nm S Si H g" and v: "v \<notin> avoid h S"
    and host: "objectPrototype h \<in> registered h"
  shows "enc_inv h nm S Si H (reserve g v)"
proof (rule enc_invI)
  note t = enc_inv_table[OF inv]
  show "table_ok (reserve g v)"
    using t by (rule table_ok_reserve)
  have old: "(w, k) \<in> set (indexMap g) \<and> contentArray (reserve g v) ! k = contentArray g ! k"
    if "(w, k) \<in> set (indexMap (reserve g v))" and "w \<noteq> v \<or> contentArray (reserve g v) ! k \<noteq> None"
    for w k
  proof -
    from that have m: "(w, k) \<in> set (indexMap g)"
      by (auto simp: reserve_def)
    from table_ok_index[OF t m] have "contentArray (reserve g v) ! k = contentArray g ! k"
      by (simp add: reserve_def nth_append)
    with m show ?thesis by simp
  qed
  show "repr nm (set_option Si) Si (contentArray (reserve g v)) k j"
    if m: "(w, k) \<in> set (indexMap (reserve g v))" and n: "contentArray (reserve g v) ! k \<noteq> None"
      and r: "reads (objectPrototype h) (avoid h S) S H w j" and c: "closure_free j"
    for w k j
  proof -
    from old[OF m] n have m0: "(w, k) \<in> set (indexMap g)" and "contentArray g ! k \<noteq> None"
      by auto
    with inv r c have "repr nm (set_option Si) Si (contentArray g) k j"
      by (auto intro: enc_inv_done)
    then show ?thesis
      by (rule repr_frame) (auto simp: reserve_def nth_append)
  qed
  show "contentArray (reserve g v) ! k = Some (KBuiltin nm)"
    if m: "(objectPrototype h, k) \<in> set (indexMap (reserve g v))" for k
  proof -
    from v host have "objectPrototype h \<noteq> v"
      by (auto simp: avoid_def)
    with old[OF m] inv show ?thesis
      by (auto dest: enc_inv_proto)
  qed
  show "Si = Some k" if m: "(w, k) \<in> set (indexMap (reserve g v))" and s: "S = Some w" for w k
  proof -
    from v s have "w \<noteq> v" by (auto simp: avoid_def)
    with old[OF m] inv s show ?thesis
      by (auto dest: enc_inv_self)
  qed
  show "find_element (indexMap (reserve g v)) s \<noteq> None" if "S = Some s" for s
    using enc_inv_found[OF inv that] by (rule find_element_reserve_other)
  show "s \<notin> registered h" if "S = Some s" for s
    using inv that by (rule enc_inv_unregistered)
  show "k < length (contentArray (reserve g v))" if "Si = Some k" for k
    using enc_inv_bound[OF inv that] by (simp add: reserve_def)
qed

lemma enc_inv_fill:
  assumes inv: "enc_inv h nm S Si H g" and m: "(v, k0) \<in> set (indexMap g)"
    and n: "contentArray g ! k0 = None"
    and r: "\<And>j. reads (objectPrototype h) (avoid h S) S H v j \<Longrightarrow> closure_free j \<Longrightarrow>
              repr nm (set_option Si) Si ((contentArray g)[k0 := Some c]) k0 j"
  shows "enc_inv h nm S Si H (fill g k0 c)"
proof (rule enc_invI)
  note t = enc_inv_table[OF inv]
  show "table_ok (fill g k0 c)"
    using t by (rule table_ok_fill)
  show "repr nm (set_option Si) Si (contentArray (fill g k0 c)) k j"
    if mw: "(w, k) \<in> set (indexMap (fill g k0 c))" and "contentArray (fill g k0 c) ! k \<noteq> None"
      and rw: "reads (objectPrototype h) (avoid h S) S H w j" and c: "closure_free j"
    for w k j
  proof (cases "k = k0")
    case True
    with mw m t have "w = v"
      by (auto simp: fill_def intro: table_ok_unique)
    with r[of j] rw c True show ?thesis
      by (simp add: fill_def)
  next
    case False
    with that have "(w, k) \<in> set (indexMap g)" and "contentArray g ! k \<noteq> None"
      by (auto simp: fill_def)
    with inv rw c have "repr nm (set_option Si) Si (contentArray g) k j"
      by (auto intro: enc_inv_done)
    with n show ?thesis
      by (simp add: fill_def repr_fill)
  qed
  show "contentArray (fill g k0 c) ! k = Some (KBuiltin nm)"
    if "(objectPrototype h, k) \<in> set (indexMap (fill g k0 c))" for k
  proof -
    from that have "contentArray g ! k = Some (KBuiltin nm)"
      using inv by (auto simp: fill_def dest: enc_inv_proto)
    moreover from this n have "k0 \<noteq> k" by auto
    ultimately show ?thesis
      by (simp add: fill_def)
  qed
  show "Si = Some k" if "(w, k) \<in> set (indexMap (fill g k0 c))" and "S = Some w" for w k
    using that inv by (auto simp: fill_def dest: enc_inv_self)
  show "find_element (indexMap (fill g k0 c)) s \<noteq> None" if "S = Some s" for s
    using enc_inv_found[OF inv that] by (simp add: fill_def)
  show "s \<notin> registered h" if "S = Some s" for s
    using inv that by (rule enc_inv_unregistered)
  show "k < length (contentArray (fill g k0 c))" if "Si = Some k" for k
    using enc_inv_bound[OF inv that] by (simp add: fill_def)
qed

lemma pend_ok_reserve:
  assumes p: "pend_ok h S H g (jdepth j)"
    and r: "reads (objectPrototype h) (avoid h S) S H v j"
    and d: "d < jdepth j" and t: "table_ok g"
  shows "pend_ok h S H (reserve g v) d"
  unfolding pend_ok_def
proof (intro ballI, clarify)
  fix w k jw
  assume m: "(w, k) \<in> set (indexMap (reserve g v))"
    and n: "contentArray (reserve g v) ! k = None"
    and ns: "S \<noteq> Some w"
    and rw: "reads (objectPrototype h) (avoid h S) S H w jw"
  show "d < jdepth jw"
  proof (cases "(w, k) \<in> set (indexMap g)")
    case True
    from table_ok_index[OF t True] n have "contentArray g ! k = None"
      by (simp add: reserve_def nth_append)
    with p True ns rw have "jdepth j < jdepth jw"
      by (auto simp: pend_ok_def)
    with d show ?thesis by simp
  next
    case False
    with m have "w = v" by (auto simp: reserve_def)
    with r rw have "jw = j" by (auto dest: reads_functional)
    with d show ?thesis by simp
  qed
qed

lemma reserved_cell:
  assumes st: "enc_step (reserve g v) g3"
  shows "(v, length (contentArray g)) \<in> set (indexMap g3)"
    and "contentArray g3 ! length (contentArray g) = None"
    and "length (contentArray g) < length (contentArray g3)"
proof -
  show "(v, length (contentArray g)) \<in> set (indexMap g3)"
    using extends_mem[OF enc_step_extends[OF st] reserve_mem] .
  have "contentArray g3 ! length (contentArray g) = contentArray (reserve g v) ! length (contentArray g)"
    by (rule enc_step_nth[OF st]) (simp add: reserve_def)
  then show "contentArray g3 ! length (contentArray g) = None"
    by (simp add: reserve_def)
  from enc_step_length[OF st] show "length (contentArray g) < length (contentArray g3)"
    by (simp add: reserve_def)
qed

lemma enc_step_miss:
  assumes st: "enc_step (reserve g v) g3"
  shows "enc_step g (fill g3 (length (contentArray g)) c)"
proof -
  let ?k = "length (contentArray g)"
  have e: "extends g (fill g3 ?k c)"
    using enc_step_extends[OF st]
    by (blast intro: extends_trans extends_reserve extends_fill)
  have "take ?k (contentArray g3) = take ?k (take (length (contentArray (reserve g v))) (contentArray g3))"
    by (simp add: reserve_def min_def)
  also have "\<dots> = contentArray g"
    using st by (simp add: enc_step_def reserve_def)
  finally have tk: "take ?k (contentArray (fill g3 ?k c)) = contentArray g"
    by (simp add: fill_def)
  have "(w, k) \<in> set (indexMap g)"
    if m: "(w, k) \<in> set (indexMap (fill g3 ?k c))"
      and n: "contentArray (fill g3 ?k c) ! k = None" for w k
  proof -
    from n reserved_cell(3)[OF st] have ne: "k \<noteq> ?k"
      by (auto simp: fill_def)
    with n have "contentArray g3 ! k = None" by (simp add: fill_def)
    with m have "(w, k) \<in> set (indexMap (reserve g v))"
      using st by (auto simp: fill_def dest: enc_step_pending)
    with ne show ?thesis by (auto simp: reserve_def)
  qed
  with e tk show ?thesis
    by (auto simp: enc_step_def)
qed

text \<open>A value that is not in the table: what is left to show about its content.\<close>

lemma add_miss_plain:
  assumes f: "find_element (indexMap g) v = None"
    and r: "reads (objectPrototype h) (avoid h S) S H v j"
    and s: "serialize_value h m H (reserve g v) v = Some (c, H, g3)"
    and inv3: "enc_inv h nm S Si H g3"
    and st: "enc_step (reserve g v) g3"
    and rp: "repr nm (set_option Si) Si ((contentArray g3)[length (contentArray g) := Some c])
               (length (contentArray g)) j"
  shows "\<exists>i g'. add h (Suc m) H g v = Some (i, H, g') \<and> enc_inv h nm S Si H g' \<and>
           enc_step g g' \<and> repr nm (set_option Si) Si (contentArray g') i j"
proof (intro exI conjI)
  let ?k = "length (contentArray g)"
  from f s show "add h (Suc m) H g v = Some (?k, H, fill g3 ?k c)"
    by simp
  show "enc_inv h nm S Si H (fill g3 ?k c)"
  proof (rule enc_inv_fill[OF inv3 reserved_cell(1)[OF st] reserved_cell(2)[OF st]])
    fix j'
    assume "reads (objectPrototype h) (avoid h S) S H v j'"
    with r have "j' = j" by (rule reads_functional[rotated])
    with rp show "repr nm (set_option Si) Si ((contentArray g3)[?k := Some c]) ?k j'"
      by simp
  qed
  show "enc_step g (fill g3 ?k c)"
    using st by (rule enc_step_miss)
  from rp show "repr nm (set_option Si) Si (contentArray (fill g3 ?k c)) ?k j"
    by (simp add: fill_def)
qed

text \<open>The prototype of object literals.\<close>

lemma add_proto:
  assumes host: "getNameOfBuiltin h (objectPrototype h) = Some nm"
    and inv: "enc_inv h nm S Si H g"
  shows "\<exists>pi g'. add h (Suc m) H g (objectPrototype h) = Some (pi, H, g') \<and>
           enc_inv h nm S Si H g' \<and> enc_step g g' \<and> pi < length (contentArray g') \<and>
           contentArray g' ! pi = Some (KBuiltin nm)"
proof (cases "find_element (indexMap g) (objectPrototype h)")
  case (Some k)
  then have m: "(objectPrototype h, k) \<in> set (indexMap g)"
    by (rule find_element_mem)
  from Some have "add h (Suc m) H g (objectPrototype h) = Some (k, H, g)"
    by simp
  moreover note inv enc_step_refl[of g] table_ok_index[OF enc_inv_table[OF inv] m]
    enc_inv_proto[OF inv m]
  ultimately show ?thesis by blast
next
  case None
  let ?P = "objectPrototype h"
  let ?k = "length (contentArray g)"
  let ?g = "fill (reserve g ?P) ?k (KBuiltin nm)"
  note t = enc_inv_table[OF inv]
  from host have reg: "?P \<in> registered h"
    by (simp add: registered_def)
  have ns: "S \<noteq> Some ?P"
    using enc_inv_unregistered[OF inv] reg by auto
  have ca: "contentArray ?g = contentArray g @ [Some (KBuiltin nm)]"
    by (simp add: fill_def reserve_def)
  have im: "indexMap ?g = indexMap g @ [(?P, ?k)]"
    by (simp add: fill_def reserve_def)
  from None host have a: "add h (Suc m) H g ?P = Some (?k, H, ?g)"
    by (simp add: serialize_value.simps)
  have i: "enc_inv h nm S Si H ?g"
  proof (rule enc_invI)
    show "table_ok ?g"
      using t by (intro table_ok_fill table_ok_reserve)
    show "repr nm (set_option Si) Si (contentArray ?g) k j"
      if mw: "(w, k) \<in> set (indexMap ?g)" and n: "contentArray ?g ! k \<noteq> None"
        and r: "reads ?P (avoid h S) S H w j" and c: "closure_free j"
      for w k j
    proof (cases "(w, k) \<in> set (indexMap g)")
      case True
      from table_ok_index[OF t True] n have "contentArray g ! k \<noteq> None"
        by (simp add: ca nth_append)
      with inv True r c have "repr nm (set_option Si) Si (contentArray g) k j"
        by (auto intro: enc_inv_done)
      then show ?thesis
        unfolding ca by (rule repr_frame) (auto simp: nth_append)
    next
      case False
      with mw have "w = ?P" by (simp add: im)
      with reg reads_valid[OF r] have "j = JSelf"
        by (auto simp: avoid_def)
      with r have "S = Some w"
        by (auto elim: reads.cases)
      with ns \<open>w = ?P\<close> show ?thesis by simp
    qed
    show "contentArray ?g ! k = Some (KBuiltin nm)" if "(?P, k) \<in> set (indexMap ?g)" for k
    proof (cases "(?P, k) \<in> set (indexMap g)")
      case True
      from table_ok_index[OF t True] enc_inv_proto[OF inv True] show ?thesis
        by (simp add: ca nth_append)
    next
      case False
      with that have "k = ?k" by (simp add: im)
      then show ?thesis by (simp add: ca)
    qed
    show "Si = Some k" if "(w, k) \<in> set (indexMap ?g)" and "S = Some w" for w k
      using that ns inv by (auto simp: im dest: enc_inv_self)
    show "find_element (indexMap ?g) s \<noteq> None" if "S = Some s" for s
      using enc_inv_found[OF inv that] by (simp add: im find_element_append split: option.splits)
    show "s \<notin> registered h" if "S = Some s" for s
      using inv that by (rule enc_inv_unregistered)
    show "k < length (contentArray ?g)" if "Si = Some k" for k
      using enc_inv_bound[OF inv that] by (simp add: ca)
  qed
  have "enc_step (reserve g ?P) (reserve g ?P)"
    by (rule enc_step_refl)
  then have st: "enc_step g ?g"
    by (rule enc_step_miss)
  from a i st show ?thesis
    by (intro exI[of _ ?k] exI[of _ ?g]) (simp add: ca)
qed

text \<open>The elements of an array, and the attributes of an object literal.\<close>

lemma add_each_plain:
  assumes "list_all2 (reads (objectPrototype h) (avoid h S) S H) vs js"
    and "\<forall>j\<in>set js. adds_ok h nm S Si H m j \<and> jdepth j \<le> d"
    and "enc_inv h nm S Si H g" and "pend_ok h S H g d"
  shows "\<exists>is g'. add_each h m H g vs = Some (is, H, g') \<and> enc_inv h nm S Si H g' \<and>
           enc_step g g' \<and> list_all2 (repr nm (set_option Si) Si (contentArray g')) is js"
  using assms
proof (induction vs js arbitrary: g rule: list_all2_induct)
  case Nil
  then show ?case by (auto intro: enc_step_refl)
next
  case (Cons v vs j js)
  from Cons.prems(1) have ok: "adds_ok h nm S Si H m j" and dj: "jdepth j \<le> d"
    by simp_all
  from Cons.prems(3) dj have "pend_ok h S H g (jdepth j)"
    by (rule pend_ok_mono)
  with ok Cons.hyps(1) Cons.prems(2) obtain i g1 where
    a: "add h m H g v = Some (i, H, g1)" and i1: "enc_inv h nm S Si H g1"
    and s1: "enc_step g g1" and r1: "repr nm (set_option Si) Si (contentArray g1) i j"
    unfolding adds_ok_def by blast
  from Cons.prems(3) s1 enc_inv_table[OF Cons.prems(2)] have p1: "pend_ok h S H g1 d"
    by (rule pend_ok_step)
  from Cons.prems(1) have "\<forall>j\<in>set js. adds_ok h nm S Si H m j \<and> jdepth j \<le> d"
    by simp
  from Cons.IH[OF this i1 p1] obtain "is" g2 where
    b: "add_each h m H g1 vs = Some (is, H, g2)" and i2: "enc_inv h nm S Si H g2"
    and s2: "enc_step g1 g2"
    and r2: "list_all2 (repr nm (set_option Si) Si (contentArray g2)) is js"
    by blast
  from a b have "add_each h m H g (v # vs) = Some (i # is, H, g2)"
    by simp
  moreover from s1 s2 enc_inv_table[OF i1] have "enc_step g g2"
    by (rule enc_step_trans)
  moreover from r1 s2 have "repr nm (set_option Si) Si (contentArray g2) i j"
    by (rule repr_step)
  ultimately show ?case
    using i2 r2 by auto
qed

lemma plain_props_Cons:
  "plain_props ((key, v) # kvs) = (key, Data v True True True) # plain_props kvs"
  by (simp add: plain_props_def)

lemma plain_props_Nil: "plain_props [] = []"
  by (simp add: plain_props_def)

lemma serializeProperties_plain:
  assumes "list_all2 (\<lambda>kv f. fst kv = fst f \<and>
             reads (objectPrototype h) (avoid h S) S H (snd kv) (snd f)) kvs fs"
    and "\<forall>f\<in>set fs. adds_ok h nm S Si H m (snd f) \<and> jdepth (snd f) \<le> d"
    and "''__closure'' \<notin> fst ` set kvs" and "distinct (map fst kvs)"
    and "fst ` set kvs \<inter> fst ` set refs0 = {}"
    and "enc_inv h nm S Si H g" and "pend_ok h S H g d"
  shows "\<exists>krs g'. serializeProperties h m H g (plain_props kvs) refs0 ds =
             Some (refs0 @ krs, ds, H, g') \<and>
           enc_inv h nm S Si H g' \<and> enc_step g g' \<and>
           list_all2 (\<lambda>kr f. fst kr = fst f \<and>
             repr nm (set_option Si) Si (contentArray g') (snd kr) (snd f)) krs fs"
  using assms
proof (induction kvs fs arbitrary: g refs0 rule: list_all2_induct)
  case Nil
  then show ?case by (auto simp: plain_props_Nil intro: enc_step_refl)
next
  case (Cons kv kvs f fs)
  obtain key v where kv: "kv = (key, v)" by (cases kv)
  obtain key' j where f: "f = (key', j)" by (cases f)
  from Cons.hyps(1) kv f have k: "key' = key"
    and r: "reads (objectPrototype h) (avoid h S) S H v j"
    by simp_all
  from Cons.prems(1) f have ok: "adds_ok h nm S Si H m j" and dj: "jdepth j \<le> d"
    by simp_all
  from Cons.prems(6) dj have "pend_ok h S H g (jdepth j)"
    by (rule pend_ok_mono)
  with ok r Cons.prems(5) obtain i g1 where
    a: "add h m H g v = Some (i, H, g1)" and i1: "enc_inv h nm S Si H g1"
    and s1: "enc_step g g1" and r1: "repr nm (set_option Si) Si (contentArray g1) i j"
    unfolding adds_ok_def by blast
  from Cons.prems(6) s1 enc_inv_table[OF Cons.prems(5)] have p1: "pend_ok h S H g1 d"
    by (rule pend_ok_step)
  from Cons.prems(4) kv have fresh: "key \<notin> fst ` set refs0"
    by auto
  from Cons.prems(2) kv have nc: "key \<noteq> ''__closure''" and nc': "''__closure'' \<notin> fst ` set kvs"
    by auto
  from Cons.prems(3) kv have dk: "distinct (map fst kvs)" and nk: "key \<notin> fst ` set kvs"
    by auto
  from Cons.prems(4) nk kv have dj': "fst ` set kvs \<inter> fst ` set (refs0 @ [(key, i)]) = {}"
    by auto
  from Cons.prems(1) have "\<forall>f\<in>set fs. adds_ok h nm S Si H m (snd f) \<and> jdepth (snd f) \<le> d"
    by simp
  from Cons.IH[OF this nc' dk dj' i1 p1] obtain krs g2 where
    b: "serializeProperties h m H g1 (plain_props kvs) (refs0 @ [(key, i)]) ds =
          Some ((refs0 @ [(key, i)]) @ krs, ds, H, g2)"
    and i2: "enc_inv h nm S Si H g2" and s2: "enc_step g1 g2"
    and r2: "list_all2 (\<lambda>kr f. fst kr = fst f \<and>
               repr nm (set_option Si) Si (contentArray g2) (snd kr) (snd f)) krs fs"
    by blast
  from a b nc fresh
  have "serializeProperties h m H g (plain_props (kv # kvs)) refs0 ds =
      Some (refs0 @ ((key, i) # krs), ds, H, g2)"
    by (simp add: kv plain_props_Cons update_fresh)
  moreover from s1 s2 enc_inv_table[OF i1] have "enc_step g g2"
    by (rule enc_step_trans)
  moreover from r1 s2 have "repr nm (set_option Si) Si (contentArray g2) i j"
    by (rule repr_step)
  ultimately show ?case
    using i2 r2 k f by (intro exI[of _ "(key, i) # krs"] exI[of _ g2]) simp
qed

lemma list_all2_pairs:
  "list_all2 (\<lambda>x y. fst x = fst y \<and> R (snd x) (snd y)) xs ys =
     (map fst xs = map fst ys \<and> list_all2 R (map snd xs) (map snd ys))"
proof (induction xs arbitrary: ys)
  case Nil
  then show ?case by auto
next
  case (Cons x xs)
  then show ?case by (cases ys) auto
qed

lemma jdepth_pos: "j \<noteq> JSelf \<Longrightarrow> 0 < jdepth j"
  by (cases j) auto

text \<open>Encoding a value that has a shape without the reserved name: \<open>add\<close> returns at the
  depth of the shape, and the index it returns stands for the shape.\<close>

lemma adds_ok_plain:
  assumes host: "getNameOfBuiltin h (objectPrototype h) = Some nm"
  shows "closure_free j \<Longrightarrow> jdepth j \<le> n \<Longrightarrow> adds_ok h nm S Si H n j"
proof (induction j arbitrary: n)
  case (JPrim p)
  then obtain m where n: "n = Suc m" by (cases n) auto
  from host have reg: "objectPrototype h \<in> registered h"
    by (simp add: registered_def)
  show ?case
    unfolding adds_ok_def
  proof (intro allI impI)
    fix v g
    assume r: "reads (objectPrototype h) (avoid h S) S H v (JPrim p)"
      and inv: "enc_inv h nm S Si H g" and pd: "pend_ok h S H g (jdepth (JPrim p))"
    from r have v: "v = Prim p" and nv: "v \<notin> avoid h S"
      by (auto elim: reads.cases)
    show "\<exists>i g'. add h n H g v = Some (i, H, g') \<and> enc_inv h nm S Si H g' \<and> enc_step g g' \<and>
        repr nm (set_option Si) Si (contentArray g') i (JPrim p)"
    proof (cases "find_element (indexMap g) v")
      case (Some k)
      from add_hit_plain[OF Some inv pd r] inv enc_step_refl[of g] show ?thesis
        by auto
    next
      case None
      let ?k = "length (contentArray g)"
      from nv have s: "serialize_value h m H (reserve g v) v = Some (KPrimitive p, H, reserve g v)"
        by (simp add: serialize_value.simps v avoid_def registered_def)
      from inv nv reg have inv1: "enc_inv h nm S Si H (reserve g v)"
        by (rule enc_inv_reserve)
      have "?k \<notin> set_option Si"
        using enc_inv_bound[OF inv] by auto
      then have rp: "repr nm (set_option Si) Si
          ((contentArray (reserve g v))[?k := Some (KPrimitive p)]) ?k (JPrim p)"
        by (intro repr_prim) (simp_all add: reserve_def)
      show ?thesis
        unfolding n by (rule add_miss_plain[OF None r s inv1 enc_step_refl rp])
    qed
  qed
next
  case (JArr js)
  then obtain m where n: "n = Suc m" by (cases n) auto
  from host have reg: "objectPrototype h \<in> registered h"
    by (simp add: registered_def)
  let ?d = "jdepth (JArr js) - 1"
  have el: "\<forall>x\<in>set js. adds_ok h nm S Si H m x \<and> jdepth x \<le> ?d"
  proof
    fix x
    assume x: "x \<in> set js"
    from jdepth_arr[OF x] JArr.prems(2) n have "jdepth x \<le> m" and "jdepth x \<le> ?d"
      by linarith+
    moreover from JArr.prems(1) x have "closure_free x"
      by (simp add: list_all_iff)
    ultimately show "adds_ok h nm S Si H m x \<and> jdepth x \<le> ?d"
      using JArr.IH[OF x] by simp
  qed
  have dl: "?d < jdepth (JArr js)" by simp
  show ?case
    unfolding adds_ok_def
  proof (intro allI impI)
    fix v g
    assume r: "reads (objectPrototype h) (avoid h S) S H v (JArr js)"
      and inv: "enc_inv h nm S Si H g" and pd: "pend_ok h S H g (jdepth (JArr js))"
    from r obtain a vs where v: "v = Ref a" and a: "a < length H" and nv: "v \<notin> avoid h S"
      and cell: "H ! a = ArrayObj vs"
      and ch: "list_all2 (reads (objectPrototype h) (avoid h S) S H) vs js"
      by (cases rule: reads.cases) auto
    show "\<exists>i g'. add h n H g v = Some (i, H, g') \<and> enc_inv h nm S Si H g' \<and> enc_step g g' \<and>
        repr nm (set_option Si) Si (contentArray g') i (JArr js)"
    proof (cases "find_element (indexMap g) v")
      case (Some k)
      from add_hit_plain[OF Some inv pd r JArr.prems(1)] inv enc_step_refl[of g] show ?thesis
        by auto
    next
      case None
      let ?k = "length (contentArray g)"
      from inv nv reg have inv1: "enc_inv h nm S Si H (reserve g v)"
        by (rule enc_inv_reserve)
      from pd r dl enc_inv_table[OF inv] have pd1: "pend_ok h S H (reserve g v) ?d"
        by (rule pend_ok_reserve)
      from add_each_plain[OF ch el inv1 pd1] obtain "is" g3 where
        e: "add_each h m H (reserve g v) vs = Some (is, H, g3)"
        and inv3: "enc_inv h nm S Si H g3" and st: "enc_step (reserve g v) g3"
        and rs: "list_all2 (repr nm (set_option Si) Si (contentArray g3)) is js"
        by blast
      from nv a cell e have s: "serialize_value h m H (reserve g v) v = Some (KArray is, H, g3)"
        by (simp add: serialize_value.simps v avoid_def registered_def)
      have "?k \<notin> set_option Si"
        using enc_inv_bound[OF inv] by auto
      moreover from rs have "list_all2 (repr nm (set_option Si) Si
          ((contentArray g3)[?k := Some (KArray is)])) is js"
        by (rule list_all2_mono) (rule repr_fill[OF _ reserved_cell(2)[OF st]])
      ultimately have rp: "repr nm (set_option Si) Si
          ((contentArray g3)[?k := Some (KArray is)]) ?k (JArr js)"
        using reserved_cell(3)[OF st] by (intro repr_arr) simp_all
      show ?thesis
        unfolding n by (rule add_miss_plain[OF None r s inv3 st rp])
    qed
  qed
next
  case (JObj fs)
  from jdepth_obj_ge[of fs] JObj.prems(2) obtain m' where n: "n = Suc (Suc m')"
    by (cases n; cases "n - 1") auto
  let ?m = "Suc m'"
  from host have reg: "objectPrototype h \<in> registered h"
    by (simp add: registered_def)
  let ?d = "jdepth (JObj fs) - 1"
  have el: "\<forall>f\<in>set fs. adds_ok h nm S Si H ?m (snd f) \<and> jdepth (snd f) \<le> ?d"
  proof
    fix f
    assume f: "f \<in> set fs"
    then have x: "snd f \<in> set (map snd fs)" by simp
    from jdepth_obj[OF x] JObj.prems(2) n have "jdepth (snd f) \<le> ?m" and "jdepth (snd f) \<le> ?d"
      by linarith+
    moreover from JObj.prems(1) f have "closure_free (snd f)"
      by (simp add: list_all_iff)
    moreover have "snd f \<in> Basic_BNFs.snds f"
      by (rule snds.intros)
    ultimately show "adds_ok h nm S Si H ?m (snd f) \<and> jdepth (snd f) \<le> ?d"
      using JObj.IH[OF f] by simp
  qed
  have dl: "?d < jdepth (JObj fs)" by simp
  show ?case
    unfolding adds_ok_def
  proof (intro allI impI)
    fix v g
    assume r: "reads (objectPrototype h) (avoid h S) S H v (JObj fs)"
      and inv: "enc_inv h nm S Si H g" and pd: "pend_ok h S H g (jdepth (JObj fs))"
    from r obtain a kvs where v: "v = Ref a" and a: "a < length H" and nv: "v \<notin> avoid h S"
      and cell: "H ! a = PlainObj (objectPrototype h) (plain_props kvs)"
      and dk: "distinct (map fst kvs)" and ks: "map fst kvs = map fst fs"
      and ch: "list_all2 (reads (objectPrototype h) (avoid h S) S H) (map snd kvs) (map snd fs)"
      by (cases rule: reads.cases) auto
    show "\<exists>i g'. add h n H g v = Some (i, H, g') \<and> enc_inv h nm S Si H g' \<and> enc_step g g' \<and>
        repr nm (set_option Si) Si (contentArray g') i (JObj fs)"
    proof (cases "find_element (indexMap g) v")
      case (Some k)
      from add_hit_plain[OF Some inv pd r JObj.prems(1)] inv enc_step_refl[of g] show ?thesis
        by auto
    next
      case None
      let ?k = "length (contentArray g)"
      from inv nv reg have inv1: "enc_inv h nm S Si H (reserve g v)"
        by (rule enc_inv_reserve)
      from pd r dl enc_inv_table[OF inv] have pd1: "pend_ok h S H (reserve g v) ?d"
        by (rule pend_ok_reserve)
      from add_proto[OF host inv1, of m'] obtain pi g2 where
        ap: "add h ?m H (reserve g v) (objectPrototype h) = Some (pi, H, g2)"
        and inv2: "enc_inv h nm S Si H g2" and st2: "enc_step (reserve g v) g2"
        and pl: "pi < length (contentArray g2)"
        and pc: "contentArray g2 ! pi = Some (KBuiltin nm)"
        by blast
      from pd1 st2 enc_inv_table[OF inv1] have pd2: "pend_ok h S H g2 ?d"
        by (rule pend_ok_step)
      from ks ch have ch': "list_all2 (\<lambda>kv f. fst kv = fst f \<and>
          reads (objectPrototype h) (avoid h S) S H (snd kv) (snd f)) kvs fs"
        by (simp add: list_all2_pairs)
      from JObj.prems(1) ks have nc: "''__closure'' \<notin> fst ` set kvs"
        by (metis closure_free.simps(3) list.set_map)
      have "fst ` set kvs \<inter> fst ` set ([] :: srefs) = {}" by simp
      from serializeProperties_plain[OF ch' el nc dk this inv2 pd2, of "[]"] obtain krs g3 where
        sp: "serializeProperties h ?m H g2 (plain_props kvs) [] [] = Some (krs, [], H, g3)"
        and inv3: "enc_inv h nm S Si H g3" and st3: "enc_step g2 g3"
        and rs: "list_all2 (\<lambda>kr f. fst kr = fst f \<and>
            repr nm (set_option Si) Si (contentArray g3) (snd kr) (snd f)) krs fs"
        by auto
      from nv a cell ap sp
      have s: "serialize_value h ?m H (reserve g v) v = Some (KObject pi krs [], H, g3)"
        by (simp add: serialize_value.simps serializeObject.simps v avoid_def registered_def)
      from st2 st3 enc_inv_table[OF inv2] have st: "enc_step (reserve g v) g3"
        by (rule enc_step_trans)
      let ?C = "(contentArray g3)[?k := Some (KObject pi krs [])]"
      from rs have kk: "map fst krs = map fst fs"
        and rs': "list_all2 (repr nm (set_option Si) Si (contentArray g3)) (map snd krs) (map snd fs)"
        by (simp_all add: list_all2_pairs)
      from rs' have rc: "list_all2 (repr nm (set_option Si) Si ?C) (map snd krs) (map snd fs)"
        by (rule list_all2_mono) (rule repr_fill[OF _ reserved_cell(2)[OF st]])
      from pl enc_step_length[OF st3] have pl3: "pi < length (contentArray g3)"
        by simp
      from enc_step_nth[OF st3 pl] pc have pc3: "contentArray g3 ! pi = Some (KBuiltin nm)"
        by simp
      with reserved_cell(2)[OF st] have "pi \<noteq> ?k" by auto
      with pc3 have pc': "?C ! pi = Some (KBuiltin nm)" by simp
      have "?k \<notin> set_option Si"
        using enc_inv_bound[OF inv] by auto
      moreover from dk ks kk have "distinct (map fst krs)" by simp
      ultimately have rp: "repr nm (set_option Si) Si ?C ?k (JObj fs)"
        using reserved_cell(3)[OF st] pl3 pc' kk rc
        by (intro repr_obj[where pi = pi and krs = krs]) simp_all
      show ?thesis
        unfolding n by (rule add_miss_plain[OF None r s inv3 st rp])
    qed
  qed
next
  case JSelf
  show ?case
    unfolding adds_ok_def
  proof (intro allI impI)
    fix v g
    assume r: "reads (objectPrototype h) (avoid h S) S H v JSelf"
      and inv: "enc_inv h nm S Si H g" and pd: "pend_ok h S H g (jdepth JSelf)"
    from r have "S = Some v"
      by (cases rule: reads.cases) auto
    from enc_inv_found[OF inv this] obtain k where f: "find_element (indexMap g) v = Some k"
      by auto
    from add_hit_plain[OF f inv pd r] inv enc_step_refl[of g]
    show "\<exists>i g'. add h n H g v = Some (i, H, g') \<and> enc_inv h nm S Si H g' \<and> enc_step g g' \<and>
        repr nm (set_option Si) Si (contentArray g') i JSelf"
      by auto
  qed
qed

subsection \<open>Decoding plain data\<close>

lemma find_index_mem: "find_index m i = Some w \<Longrightarrow> (w, i) \<in> set m"
  by (induction m) (auto split: if_splits)

lemma find_index_append_found: "find_index m k \<noteq> None \<Longrightarrow> find_index (m @ new) k \<noteq> None"
  by (cases "find_index m k") (auto dest: find_index_append)

lemma find_index_snoc_other: "i \<noteq> k \<Longrightarrow> find_index (m @ [(w, k)]) i = find_index m i"
  by (induction m) auto

lemma find_index_push_other:
  "i \<noteq> k \<Longrightarrow> find_index (indexMap (push_index g w k)) i = find_index (indexMap g) i"
  by (simp add: push_index_def find_index_snoc_other)

lemma reads_fresh:
  "reads P B S H v j \<Longrightarrow> length H \<le> a \<Longrightarrow> reads P (insert (Ref a) B) S H v j"
proof (induction rule: reads.induct)
  case (reads_prim p)
  then show ?case by (auto intro: reads.reads_prim)
next
  case (reads_arr a' vs js)
  from reads_arr.IH reads_arr.prems have "list_all2 (reads P (insert (Ref a) B) S H) vs js"
    by (auto elim!: list_all2_mono)
  with reads_arr.hyps reads_arr.prems show ?case
    by (auto intro!: reads.reads_arr)
next
  case (reads_obj a' kvs fs)
  from reads_obj.IH reads_obj.prems
  have "list_all2 (reads P (insert (Ref a) B) S H) (map snd kvs) (map snd fs)"
    by (auto elim!: list_all2_mono)
  with reads_obj.hyps reads_obj.prems show ?case
    by (auto intro!: reads.reads_obj)
next
  case (reads_self s)
  then show ?case by (auto intro: reads.reads_self)
qed

lemma heap_extI:
  assumes "length H \<le> length H'" and "\<And>a. a < length H \<Longrightarrow> H' ! a = H ! a"
  shows "heap_ext H H'"
  unfolding heap_ext_def using assms by (auto intro: nth_equalityI)

lemma changed_at_refl: "changed_at r H H"
  by (simp add: changed_at_def)

lemma changed_at_trans: "changed_at r H H1 \<Longrightarrow> changed_at r H1 H2 \<Longrightarrow> changed_at r H H2"
  by (auto simp: changed_at_def)

lemma changed_at_ext: "heap_ext H H' \<Longrightarrow> changed_at r H H'"
  by (simp add: changed_at_def heap_ext_length heap_ext_nth)

lemma changed_at_update: "changed_at r H (H[r := ob])"
  by (simp add: changed_at_def)

lemma changed_at_length: "changed_at r H H' \<Longrightarrow> length H \<le> length H'"
  by (simp add: changed_at_def)

lemma reads_changed:
  "reads P B S H v j \<Longrightarrow> changed_at r H H' \<Longrightarrow> Ref r \<in> B \<Longrightarrow> reads P B S H' v j"
  by (erule reads_frame) (auto simp: changed_at_def)

lemma dec_inv_content: "dec_inv h nm Si S C Pd H g \<Longrightarrow> contentArray g = C"
  by (simp add: dec_inv_def)

lemma dec_inv_done:
  "dec_inv h nm Si S C Pd H g \<Longrightarrow> (w, k) \<in> set (indexMap g) \<Longrightarrow> (w, k) \<notin> Pd \<Longrightarrow>
   repr nm (set_option Si) Si C k j \<Longrightarrow> reads (objectPrototype h) (fst ` Pd) S H w j"
  by (auto simp: dec_inv_def)

lemma dec_inv_self:
  "dec_inv h nm Si S C Pd H g \<Longrightarrow> (w, k) \<in> set (indexMap g) \<Longrightarrow> Si = Some k \<Longrightarrow>
   S = Some w \<and> (w, k) \<in> Pd"
  by (auto simp: dec_inv_def)

lemma dec_inv_found:
  "dec_inv h nm Si S C Pd H g \<Longrightarrow> Si = Some k \<Longrightarrow> find_index (indexMap g) k \<noteq> None"
  by (auto simp: dec_inv_def)

lemma dec_inv_pending:
  "dec_inv h nm Si S C Pd H g \<Longrightarrow> (w, k) \<in> Pd \<Longrightarrow> \<exists>a. w = Ref a \<and> a < length H"
  by (auto simp: dec_inv_def)

lemma dec_inv_S: "dec_inv h nm Si S C Pd H g \<Longrightarrow> S = Some s \<Longrightarrow> s \<in> fst ` Pd"
  by (auto simp: dec_inv_def)

lemma dec_inv_builtin:
  "dec_inv h nm Si S C Pd H g \<Longrightarrow> (w, k) \<in> set (indexMap g) \<Longrightarrow> C ! k = Some (KBuiltin nm) \<Longrightarrow>
   w = objectPrototype h"
  by (auto simp: dec_inv_def)

lemma dec_invI:
  assumes "contentArray g = C"
    and "\<And>w k j. (w, k) \<in> set (indexMap g) \<Longrightarrow> (w, k) \<notin> Pd \<Longrightarrow>
           repr nm (set_option Si) Si C k j \<Longrightarrow> reads (objectPrototype h) (fst ` Pd) S H w j"
    and "\<And>w k. (w, k) \<in> set (indexMap g) \<Longrightarrow> Si = Some k \<Longrightarrow> S = Some w \<and> (w, k) \<in> Pd"
    and "\<And>k. Si = Some k \<Longrightarrow> find_index (indexMap g) k \<noteq> None"
    and "\<And>w k. (w, k) \<in> Pd \<Longrightarrow> \<exists>a. w = Ref a \<and> a < length H"
    and "\<And>s. S = Some s \<Longrightarrow> s \<in> fst ` Pd"
    and "\<And>w k. (w, k) \<in> set (indexMap g) \<Longrightarrow> C ! k = Some (KBuiltin nm) \<Longrightarrow>
           w = objectPrototype h"
  shows "dec_inv h nm Si S C Pd H g"
  unfolding dec_inv_def using assms by blast

lemma dec_inv_pending_ref: "dec_inv h nm Si S C Pd H g \<Longrightarrow> Ref r \<in> fst ` Pd \<Longrightarrow> r < length H"
  by (auto dest: dec_inv_pending)

lemma dec_inv_frame:
  assumes inv: "dec_inv h nm Si S C Pd H g" and l: "length H \<le> length H'"
    and f: "\<And>a. a < length H \<Longrightarrow> Ref a \<notin> fst ` Pd \<Longrightarrow> H' ! a = H ! a"
  shows "dec_inv h nm Si S C Pd H' g"
proof (rule dec_invI)
  show "contentArray g = C"
    using inv by (rule dec_inv_content)
  show "reads (objectPrototype h) (fst ` Pd) S H' w j"
    if "(w, k) \<in> set (indexMap g)" and "(w, k) \<notin> Pd" and "repr nm (set_option Si) Si C k j"
    for w k j
    using dec_inv_done[OF inv that] l f by (rule reads_frame)
  show "S = Some w \<and> (w, k) \<in> Pd" if "(w, k) \<in> set (indexMap g)" and "Si = Some k" for w k
    using inv that by (rule dec_inv_self)
  show "find_index (indexMap g) k \<noteq> None" if "Si = Some k" for k
    using inv that by (rule dec_inv_found)
  show "\<exists>a. w = Ref a \<and> a < length H'" if "(w, k) \<in> Pd" for w k
    using dec_inv_pending[OF inv that] l by auto
  show "s \<in> fst ` Pd" if "S = Some s" for s
    using inv that by (rule dec_inv_S)
  show "w = objectPrototype h" if "(w, k) \<in> set (indexMap g)" and "C ! k = Some (KBuiltin nm)"
    for w k
    using inv that by (rule dec_inv_builtin)
qed

lemma dec_inv_changed:
  "dec_inv h nm Si S C Pd H g \<Longrightarrow> changed_at r H H' \<Longrightarrow> Ref r \<in> fst ` Pd \<Longrightarrow>
   dec_inv h nm Si S C Pd H' g"
  by (erule dec_inv_frame) (auto simp: changed_at_def)

text \<open>An index that is in the table.\<close>

lemma get_hit_plain:
  assumes f: "find_index (indexMap g) i = Some w"
    and inv: "dec_inv h nm Si S C Pd H g"
    and pd: "dpend_ok nm Si C Pd (jdepth j)"
    and r: "repr nm (set_option Si) Si C i j"
  shows "get h n H g i = Some (Inr (w, H, g)) \<and> reads (objectPrototype h) (fst ` Pd) S H w j"
proof
  from f show "get h n H g i = Some (Inr (w, H, g))"
    by (rule get_registered)
  from f have m: "(w, i) \<in> set (indexMap g)"
    by (rule find_index_mem)
  show "reads (objectPrototype h) (fst ` Pd) S H w j"
  proof (cases "(w, i) \<in> Pd")
    case False
    from inv m False r show ?thesis by (rule dec_inv_done)
  next
    case True
    with pd r have si: "Si = Some i"
      by (auto simp: dpend_ok_def)
    with repr_valid[OF r] have "j = JSelf" by simp
    moreover from dec_inv_self[OF inv m si] have "S = Some w" by simp
    moreover from True have "w \<in> fst ` Pd" by force
    ultimately show ?thesis by (auto intro: reads_self)
  qed
qed

text \<open>Registering a value that is complete, or one that is still to be built.\<close>

lemma dec_inv_push:
  assumes inv: "dec_inv h nm Si S C Pd H g" and f: "find_index (indexMap g) i = None"
    and rd: "\<And>j. repr nm (set_option Si) Si C i j \<Longrightarrow>
               reads (objectPrototype h) (fst ` Pd) S H w j"
    and b: "C ! i = Some (KBuiltin nm) \<Longrightarrow> w = objectPrototype h"
  shows "dec_inv h nm Si S C Pd H (push_index g w i)"
proof (rule dec_invI)
  have im: "indexMap (push_index g w i) = indexMap g @ [(w, i)]"
    by (simp add: push_index_def)
  from f dec_inv_found[OF inv] have si: "Si \<noteq> Some i" by auto
  show "contentArray (push_index g w i) = C"
    using dec_inv_content[OF inv] by (simp add: push_index_def)
  show "reads (objectPrototype h) (fst ` Pd) S H w' j"
    if "(w', k) \<in> set (indexMap (push_index g w i))" and "(w', k) \<notin> Pd"
      and "repr nm (set_option Si) Si C k j" for w' k j
    using that rd dec_inv_done[OF inv] by (auto simp: im)
  show "S = Some w' \<and> (w', k) \<in> Pd"
    if "(w', k) \<in> set (indexMap (push_index g w i))" and "Si = Some k" for w' k
    using that si dec_inv_self[OF inv] by (auto simp: im)
  show "find_index (indexMap (push_index g w i)) k \<noteq> None" if "Si = Some k" for k
    unfolding im using dec_inv_found[OF inv that] by (rule find_index_append_found)
  show "\<exists>a. w' = Ref a \<and> a < length H" if "(w', k) \<in> Pd" for w' k
    using inv that by (rule dec_inv_pending)
  show "s \<in> fst ` Pd" if "S = Some s" for s
    using inv that by (rule dec_inv_S)
  show "w' = objectPrototype h"
    if "(w', k) \<in> set (indexMap (push_index g w i))" and "C ! k = Some (KBuiltin nm)" for w' k
    using that b dec_inv_builtin[OF inv] by (auto simp: im)
qed

lemma dec_inv_enter:
  assumes inv: "dec_inv h nm Si S C Pd H g" and f: "find_index (indexMap g) i = None"
    and nb: "C ! i \<noteq> Some (KBuiltin nm)"
  shows "dec_inv h nm Si S C (insert (Ref (length H), i) Pd) (H @ [ob])
           (push_index g (Ref (length H)) i)"
proof (rule dec_invI)
  let ?r = "length H"
  have im: "indexMap (push_index g (Ref ?r) i) = indexMap g @ [(Ref ?r, i)]"
    by (simp add: push_index_def)
  from f dec_inv_found[OF inv] have si: "Si \<noteq> Some i" by auto
  show "contentArray (push_index g (Ref ?r) i) = C"
    using dec_inv_content[OF inv] by (simp add: push_index_def)
  show "reads (objectPrototype h) (fst ` insert (Ref ?r, i) Pd) S (H @ [ob]) w j"
    if "(w, k) \<in> set (indexMap (push_index g (Ref ?r) i))" and "(w, k) \<notin> insert (Ref ?r, i) Pd"
      and r: "repr nm (set_option Si) Si C k j" for w k j
  proof -
    from that have "(w, k) \<in> set (indexMap g)" and "(w, k) \<notin> Pd"
      by (auto simp: im)
    from dec_inv_done[OF inv this r] have "reads (objectPrototype h) (fst ` Pd) S H w j" .
    then have "reads (objectPrototype h) (insert (Ref ?r) (fst ` Pd)) S H w j"
      by (rule reads_fresh) simp
    then have "reads (objectPrototype h) (insert (Ref ?r) (fst ` Pd)) S (H @ [ob]) w j"
      by (rule reads_ext) (rule heap_ext_append)
    then show ?thesis by simp
  qed
  show "S = Some w \<and> (w, k) \<in> insert (Ref ?r, i) Pd"
    if "(w, k) \<in> set (indexMap (push_index g (Ref ?r) i))" and "Si = Some k" for w k
    using that si dec_inv_self[OF inv] by (auto simp: im)
  show "find_index (indexMap (push_index g (Ref ?r) i)) k \<noteq> None" if "Si = Some k" for k
    unfolding im using dec_inv_found[OF inv that] by (rule find_index_append_found)
  show "\<exists>a. w = Ref a \<and> a < length (H @ [ob])" if "(w, k) \<in> insert (Ref ?r, i) Pd" for w k
    using that dec_inv_pending[OF inv] by fastforce
  show "s \<in> fst ` insert (Ref ?r, i) Pd" if "S = Some s" for s
    using dec_inv_S[OF inv that] by simp
  show "w = objectPrototype h"
    if "(w, k) \<in> set (indexMap (push_index g (Ref ?r) i))" and "C ! k = Some (KBuiltin nm)" for w k
    using that nb dec_inv_builtin[OF inv] by (auto simp: im)
qed

lemma dpend_ok_mono: "dpend_ok nm Si C Pd d \<Longrightarrow> d' \<le> d \<Longrightarrow> dpend_ok nm Si C Pd d'"
  by (fastforce simp: dpend_ok_def)

lemma dpend_ok_enter:
  assumes p: "dpend_ok nm Si C Pd (jdepth j)" and r: "repr nm (set_option Si) Si C i j"
    and d: "d < jdepth j"
  shows "dpend_ok nm Si C (insert (w, i) Pd) d"
  unfolding dpend_ok_def
proof (intro ballI, clarify)
  fix w' k j'
  assume m: "(w', k) \<in> insert (w, i) Pd" and ns: "Si \<noteq> Some k"
    and r': "repr nm (set_option Si) Si C k j'"
  show "d < jdepth j'"
  proof (cases "(w', k) \<in> Pd")
    case True
    with p ns r' have "jdepth j < jdepth j'"
      by (auto simp: dpend_ok_def)
    with d show ?thesis by simp
  next
    case False
    with m have "k = i" by simp
    with r r' have "j' = j" by (auto dest: repr_functional)
    with d show ?thesis by simp
  qed
qed

lemma dec_inv_leave:
  assumes inv: "dec_inv h nm Si S C (insert (Ref r, i) Pd) H' g'"
    and old: "\<And>w k. (w, k) \<in> Pd \<Longrightarrow> \<exists>a. w = Ref a \<and> a < r"
    and si: "Si \<noteq> Some i"
    and S: "\<And>s. S = Some s \<Longrightarrow> s \<in> fst ` Pd"
    and rd: "\<And>j. repr nm (set_option Si) Si C i j \<Longrightarrow>
               reads (objectPrototype h) (fst ` Pd) S H' (Ref r) j"
  shows "dec_inv h nm Si S C Pd H' g'"
proof (rule dec_invI)
  show "contentArray g' = C"
    using inv by (rule dec_inv_content)
  show "reads (objectPrototype h) (fst ` Pd) S H' w j"
    if m: "(w, k) \<in> set (indexMap g')" and n: "(w, k) \<notin> Pd"
      and r: "repr nm (set_option Si) Si C k j" for w k j
  proof (cases "(w, k) = (Ref r, i)")
    case True
    with rd r show ?thesis by simp
  next
    case False
    with n have "(w, k) \<notin> insert (Ref r, i) Pd" by simp
    from dec_inv_done[OF inv m this r]
    have "reads (objectPrototype h) (fst ` insert (Ref r, i) Pd) S H' w j" .
    then show ?thesis
      by (rule reads_weaken) (use S in auto)
  qed
  show "S = Some w \<and> (w, k) \<in> Pd" if "(w, k) \<in> set (indexMap g')" and "Si = Some k" for w k
    using dec_inv_self[OF inv that] si that(2) by auto
  show "find_index (indexMap g') k \<noteq> None" if "Si = Some k" for k
    using inv that by (rule dec_inv_found)
  show "\<exists>a. w = Ref a \<and> a < length H'" if "(w, k) \<in> Pd" for w k
  proof -
    from dec_inv_pending[OF inv, of "Ref r" i] have "r < length H'" by simp
    with old[OF that] show ?thesis by auto
  qed
  show "s \<in> fst ` Pd" if "S = Some s" for s
    using that by (rule S)
  show "w = objectPrototype h" if "(w, k) \<in> set (indexMap g')" and "C ! k = Some (KBuiltin nm)"
    for w k
    using inv that by (rule dec_inv_builtin)
qed

text \<open>The loops over the elements of an array record and over the attributes of an
  object record.\<close>

lemma get_refs_plain:
  assumes "list_all2 (repr nm (set_option Si) Si C) refs js"
    and "\<forall>j\<in>set js. gets_ok h nm Si S C m j \<and> jdepth j \<le> d"
    and "dec_inv h nm Si S C Pd H g" and "dpend_ok nm Si C Pd d"
    and "Ref r \<in> fst ` Pd" and "H ! r = ArrayObj vs0"
  shows "\<exists>H' g' vs. get_refs h m H g r refs = Some (Inr (H', g')) \<and>
           dec_inv h nm Si S C Pd H' g' \<and> changed_at r H H' \<and> H' ! r = ArrayObj (vs0 @ vs) \<and>
           list_all2 (reads (objectPrototype h) (fst ` Pd) S H') vs js"
  using assms
proof (induction refs js arbitrary: H g vs0 rule: list_all2_induct)
  case Nil
  then show ?case by (auto intro: changed_at_refl)
next
  case (Cons ref refs j js)
  note inv = Cons.prems(2) and pd = Cons.prems(3) and rp = Cons.prems(4) and cell = Cons.prems(5)
  from Cons.prems(1) have ok: "gets_ok h nm Si S C m j" and dj: "jdepth j \<le> d"
    by simp_all
  from pd dj have "dpend_ok nm Si C Pd (jdepth j)"
    by (rule dpend_ok_mono)
  with ok Cons.hyps(1) inv obtain v H1 g1 where
    a: "get h m H g ref = Some (Inr (v, H1, g1))" and i1: "dec_inv h nm Si S C Pd H1 g1"
    and e1: "heap_ext H H1" and r1: "reads (objectPrototype h) (fst ` Pd) S H1 v j"
    unfolding gets_ok_def by blast
  from dec_inv_pending_ref[OF inv rp] have rl: "r < length H" .
  with e1 cell have c1: "H1 ! r = ArrayObj vs0"
    by (simp add: heap_ext_nth)
  let ?H2 = "H1[r := ArrayObj (vs0 @ [v])]"
  from i1 changed_at_update rp have i2: "dec_inv h nm Si S C Pd ?H2 g1"
    by (rule dec_inv_changed)
  from rl heap_ext_length[OF e1] have c2: "?H2 ! r = ArrayObj (vs0 @ [v])"
    by simp
  from Cons.prems(1) have "\<forall>j\<in>set js. gets_ok h nm Si S C m j \<and> jdepth j \<le> d"
    by simp
  from Cons.IH[OF this i2 pd rp c2] obtain H' g' vs where
    b: "get_refs h m ?H2 g1 r refs = Some (Inr (H', g'))"
    and i': "dec_inv h nm Si S C Pd H' g'" and ch: "changed_at r ?H2 H'"
    and c': "H' ! r = ArrayObj ((vs0 @ [v]) @ vs)"
    and rs: "list_all2 (reads (objectPrototype h) (fst ` Pd) S H') vs js"
    by blast
  from a c1 b have "get_refs h m H g r (ref # refs) = Some (Inr (H', g'))"
    by simp
  moreover from changed_at_trans[OF changed_at_update ch] have ch1: "changed_at r H1 H'" .
  from changed_at_trans[OF changed_at_ext[OF e1] ch1] have "changed_at r H H'" .
  moreover from r1 ch1 rp have "reads (objectPrototype h) (fst ` Pd) S H' v j"
    by (rule reads_changed)
  ultimately show ?case
    using i' c' rs by (intro exI[of _ H'] exI[of _ g'] exI[of _ "v # vs"]) simp
qed

lemma map_of_plain_props: "key \<notin> fst ` set kvs \<Longrightarrow> map_of (plain_props kvs) key = None"
  by (induction kvs) (auto simp: plain_props_def)

lemma plain_props_append: "plain_props (kvs @ kvs') = plain_props kvs @ plain_props kvs'"
  by (simp add: plain_props_def)

lemma heap_assign_plain:
  assumes "H ! r = PlainObj P (plain_props kvs0)" and "key \<notin> fst ` set kvs0"
  shows "heap_assign H r key v = Inr (H[r := PlainObj P (plain_props (kvs0 @ [(key, v)]))])"
  using assms
  by (simp add: heap_assign_def assign_def map_of_plain_props plain_props_append
      plain_props_Cons plain_props_Nil)

lemma deserializeRefs_plain:
  assumes "list_all2 (\<lambda>kr f. fst kr = fst f \<and> repr nm (set_option Si) Si C (snd kr) (snd f)) krs fs"
    and "\<forall>f\<in>set fs. gets_ok h nm Si S C m (snd f) \<and> jdepth (snd f) \<le> d"
    and "dec_inv h nm Si S C Pd H g" and "dpend_ok nm Si C Pd d"
    and "Ref r \<in> fst ` Pd" and "H ! r = PlainObj P (plain_props kvs0)"
    and "distinct (map fst krs)" and "fst ` set krs \<inter> fst ` set kvs0 = {}"
  shows "\<exists>H' g' kvs. deserializeRefs h m H g r krs = Some (Inr (H', g')) \<and>
           dec_inv h nm Si S C Pd H' g' \<and> changed_at r H H' \<and>
           H' ! r = PlainObj P (plain_props (kvs0 @ kvs)) \<and>
           list_all2 (\<lambda>kv f. fst kv = fst f \<and>
             reads (objectPrototype h) (fst ` Pd) S H' (snd kv) (snd f)) kvs fs"
  using assms
proof (induction krs fs arbitrary: H g kvs0 rule: list_all2_induct)
  case Nil
  then show ?case by (auto intro: changed_at_refl)
next
  case (Cons kr krs f fs)
  note inv = Cons.prems(2) and pd = Cons.prems(3) and rp = Cons.prems(4) and cell = Cons.prems(5)
  obtain key ix where kr: "kr = (key, ix)" by (cases kr)
  obtain key' j where f: "f = (key', j)" by (cases f)
  from Cons.hyps(1) kr f have k: "key' = key" and rj: "repr nm (set_option Si) Si C ix j"
    by simp_all
  from Cons.prems(1) f have ok: "gets_ok h nm Si S C m j" and dj: "jdepth j \<le> d"
    by simp_all
  from pd dj have "dpend_ok nm Si C Pd (jdepth j)"
    by (rule dpend_ok_mono)
  with ok rj inv obtain v H1 g1 where
    a: "get h m H g ix = Some (Inr (v, H1, g1))" and i1: "dec_inv h nm Si S C Pd H1 g1"
    and e1: "heap_ext H H1" and r1: "reads (objectPrototype h) (fst ` Pd) S H1 v j"
    unfolding gets_ok_def by blast
  from dec_inv_pending_ref[OF inv rp] have rl: "r < length H" .
  with e1 cell have c1: "H1 ! r = PlainObj P (plain_props kvs0)"
    by (simp add: heap_ext_nth)
  from Cons.prems(7) kr have fresh: "key \<notin> fst ` set kvs0"
    by auto
  let ?H2 = "H1[r := PlainObj P (plain_props (kvs0 @ [(key, v)]))]"
  from c1 fresh have ha: "heap_assign H1 r key v = Inr ?H2"
    by (rule heap_assign_plain)
  from i1 changed_at_update rp have i2: "dec_inv h nm Si S C Pd ?H2 g1"
    by (rule dec_inv_changed)
  from rl heap_ext_length[OF e1] have c2: "?H2 ! r = PlainObj P (plain_props (kvs0 @ [(key, v)]))"
    by simp
  from Cons.prems(6) kr have dk: "distinct (map fst krs)" and nk: "key \<notin> fst ` set krs"
    by auto
  from Cons.prems(7) nk kr have dj': "fst ` set krs \<inter> fst ` set (kvs0 @ [(key, v)]) = {}"
    by auto
  from Cons.prems(1) have "\<forall>f\<in>set fs. gets_ok h nm Si S C m (snd f) \<and> jdepth (snd f) \<le> d"
    by simp
  from Cons.IH[OF this i2 pd rp c2 dk dj'] obtain H' g' kvs where
    b: "deserializeRefs h m ?H2 g1 r krs = Some (Inr (H', g'))"
    and i': "dec_inv h nm Si S C Pd H' g'" and ch: "changed_at r ?H2 H'"
    and c': "H' ! r = PlainObj P (plain_props ((kvs0 @ [(key, v)]) @ kvs))"
    and rs: "list_all2 (\<lambda>kv f. fst kv = fst f \<and>
               reads (objectPrototype h) (fst ` Pd) S H' (snd kv) (snd f)) kvs fs"
    by blast
  from a ha b have "deserializeRefs h m H g r (kr # krs) = Some (Inr (H', g'))"
    by (simp add: kr)
  moreover from changed_at_trans[OF changed_at_update ch] have ch1: "changed_at r H1 H'" .
  from changed_at_trans[OF changed_at_ext[OF e1] ch1] have "changed_at r H H'" .
  moreover from r1 ch1 rp have "reads (objectPrototype h) (fst ` Pd) S H' v j"
    by (rule reads_changed)
  ultimately show ?case
    using i' c' rs k f by (intro exI[of _ H'] exI[of _ g'] exI[of _ "(key, v) # kvs"]) simp
qed

text \<open>The record of the prototype of object literals.\<close>

lemma get_proto:
  assumes host: "getBuiltinByName h nm = Some (objectPrototype h)"
    and inv: "dec_inv h nm Si S C Pd H g"
    and pl: "pi < length C" and pc: "C ! pi = Some (KBuiltin nm)"
  shows "\<exists>g1. get h (Suc m) H g pi = Some (Inr (objectPrototype h, H, g1)) \<and>
           dec_inv h nm Si S C Pd H g1 \<and>
           (\<forall>i. i \<noteq> pi \<longrightarrow> find_index (indexMap g1) i = find_index (indexMap g) i)"
proof (cases "find_index (indexMap g) pi")
  case (Some w)
  from dec_inv_builtin[OF inv find_index_mem[OF Some] pc] have "w = objectPrototype h" .
  with Some inv show ?thesis
    by (auto simp: get_registered)
next
  case None
  let ?g = "push_index g (objectPrototype h) pi"
  from None host pl pc dec_inv_content[OF inv]
  have "get h (Suc m) H g pi = Some (Inr (objectPrototype h, H, ?g))"
    by simp
  moreover have "dec_inv h nm Si S C Pd H ?g"
  proof (rule dec_inv_push[OF inv None])
    fix j
    assume r: "repr nm (set_option Si) Si C pi j"
    from None dec_inv_found[OF inv] have "Si \<noteq> Some pi" by auto
    with r pc show "reads (objectPrototype h) (fst ` Pd) S H (objectPrototype h) j"
      by (cases rule: repr.cases) auto
  qed simp
  ultimately show ?thesis
    by (auto simp: find_index_push_other)
qed

text \<open>Decoding an index that stands for a shape: \<open>get\<close> returns at the depth of the shape,
  only adds to the store, and the value it returns has the shape.\<close>

lemma gets_ok_plain:
  assumes host: "getBuiltinByName h nm = Some (objectPrototype h)"
    and obj: "objectPrototype h = Ref p0"
  shows "jdepth j \<le> n \<Longrightarrow> gets_ok h nm Si S C n j"
proof (induction j arbitrary: n)
  case (JPrim p)
  then obtain m where n: "n = Suc m" by (cases n) auto
  show ?case
    unfolding gets_ok_def
  proof (intro allI impI)
    fix i H g Pd
    assume r: "repr nm (set_option Si) Si C i (JPrim p)"
      and inv: "dec_inv h nm Si S C Pd H g" and pd: "dpend_ok nm Si C Pd (jdepth (JPrim p))"
    from r have il: "i < length C" and ic: "C ! i = Some (KPrimitive p)"
      by (auto elim: repr.cases)
    show "\<exists>v H' g'. get h n H g i = Some (Inr (v, H', g')) \<and> dec_inv h nm Si S C Pd H' g' \<and>
        heap_ext H H' \<and> reads (objectPrototype h) (fst ` Pd) S H' v (JPrim p)"
    proof (cases "find_index (indexMap g) i")
      case (Some w)
      from get_hit_plain[OF Some inv pd r] inv heap_ext_refl[of H] show ?thesis
        by auto
    next
      case None
      have np: "Prim p \<notin> fst ` Pd"
        using dec_inv_pending[OF inv] by force
      then have rd: "reads (objectPrototype h) (fst ` Pd) S H (Prim p) (JPrim p)"
        by (rule reads_prim)
      from None il ic dec_inv_content[OF inv]
      have "get h n H g i = Some (Inr (Prim p, H, push_index g (Prim p) i))"
        by (simp add: n)
      moreover have "dec_inv h nm Si S C Pd H (push_index g (Prim p) i)"
      proof (rule dec_inv_push[OF inv None])
        fix j
        assume "repr nm (set_option Si) Si C i j"
        with r have "j = JPrim p" by (rule repr_functional[rotated])
        with rd show "reads (objectPrototype h) (fst ` Pd) S H (Prim p) j" by simp
      qed (simp add: ic)
      ultimately show ?thesis
        using rd heap_ext_refl[of H] by auto
    qed
  qed
next
  case (JArr js)
  then obtain m where n: "n = Suc m" by (cases n) auto
  let ?d = "jdepth (JArr js) - 1"
  have el: "\<forall>x\<in>set js. gets_ok h nm Si S C m x \<and> jdepth x \<le> ?d"
  proof
    fix x
    assume x: "x \<in> set js"
    from jdepth_arr[OF x] JArr.prems n have "jdepth x \<le> m" and "jdepth x \<le> ?d"
      by linarith+
    then show "gets_ok h nm Si S C m x \<and> jdepth x \<le> ?d"
      using JArr.IH[OF x] by simp
  qed
  have dl: "?d < jdepth (JArr js)" by simp
  show ?case
    unfolding gets_ok_def
  proof (intro allI impI)
    fix i H g Pd
    assume r: "repr nm (set_option Si) Si C i (JArr js)"
      and inv: "dec_inv h nm Si S C Pd H g" and pd: "dpend_ok nm Si C Pd (jdepth (JArr js))"
    from r obtain refs where il: "i < length C" and ic: "C ! i = Some (KArray refs)"
      and ch: "list_all2 (repr nm (set_option Si) Si C) refs js"
      by (cases rule: repr.cases) auto
    show "\<exists>v H' g'. get h n H g i = Some (Inr (v, H', g')) \<and> dec_inv h nm Si S C Pd H' g' \<and>
        heap_ext H H' \<and> reads (objectPrototype h) (fst ` Pd) S H' v (JArr js)"
    proof (cases "find_index (indexMap g) i")
      case (Some w)
      from get_hit_plain[OF Some inv pd r] inv heap_ext_refl[of H] show ?thesis
        by auto
    next
      case None
      let ?r = "length H"
      let ?Pd = "insert (Ref ?r, i) Pd"
      let ?H1 = "H @ [ArrayObj []]"
      let ?g1 = "push_index g (Ref ?r) i"
      from None dec_inv_found[OF inv] have si: "Si \<noteq> Some i" by auto
      from ic have "C ! i \<noteq> Some (KBuiltin nm)" by simp
      with inv None have inv1: "dec_inv h nm Si S C ?Pd ?H1 ?g1"
        by (rule dec_inv_enter)
      from pd r dl have pd1: "dpend_ok nm Si C ?Pd ?d"
        by (rule dpend_ok_enter)
      have rp: "Ref ?r \<in> fst ` ?Pd" by simp
      have c0: "?H1 ! ?r = ArrayObj ([] @ [])" by simp
      from get_refs_plain[OF ch el inv1 pd1 rp c0] obtain H' g' vs where
        gr: "get_refs h m ?H1 ?g1 ?r refs = Some (Inr (H', g'))"
        and inv': "dec_inv h nm Si S C ?Pd H' g'" and cha: "changed_at ?r ?H1 H'"
        and c': "H' ! ?r = ArrayObj vs"
        and rs: "list_all2 (reads (objectPrototype h) (fst ` ?Pd) S H') vs js"
        by auto
      from None il ic gr dec_inv_content[OF inv]
      have "get h n H g i = Some (Inr (Ref ?r, H', g'))"
        by (simp add: n Let_def)
      moreover
      from changed_at_length[OF cha] have rl: "?r < length H'" by simp
      have nr: "Ref ?r \<notin> fst ` Pd"
        using dec_inv_pending[OF inv] by force
      from rs have "list_all2 (reads (objectPrototype h) (fst ` Pd) S H') vs js"
        by (rule list_all2_mono) (erule reads_weaken, use dec_inv_S[OF inv] in auto)
      with rl nr c' have rd: "reads (objectPrototype h) (fst ` Pd) S H' (Ref ?r) (JArr js)"
        by (rule reads_arr)
      have "dec_inv h nm Si S C Pd H' g'"
      proof (rule dec_inv_leave[OF inv' _ si])
        show "\<exists>a. w = Ref a \<and> a < ?r" if "(w, k) \<in> Pd" for w k
          using inv that by (rule dec_inv_pending)
        show "s \<in> fst ` Pd" if "S = Some s" for s
          using inv that by (rule dec_inv_S)
        fix j
        assume "repr nm (set_option Si) Si C i j"
        with r have "j = JArr js" by (rule repr_functional[rotated])
        with rd show "reads (objectPrototype h) (fst ` Pd) S H' (Ref ?r) j" by simp
      qed
      moreover have "heap_ext H H'"
      proof (rule heap_extI)
        from changed_at_length[OF cha] show "length H \<le> length H'" by simp
        fix a
        assume "a < length H"
        with cha show "H' ! a = H ! a"
          by (auto simp: changed_at_def nth_append)
      qed
      ultimately show ?thesis
        using rd by auto
    qed
  qed
next
  case (JObj fs)
  from jdepth_obj_ge[of fs] JObj.prems obtain m' where n: "n = Suc (Suc m')"
    by (cases n; cases "n - 1") auto
  let ?m = "Suc m'"
  let ?d = "jdepth (JObj fs) - 1"
  have el: "\<forall>f\<in>set fs. gets_ok h nm Si S C ?m (snd f) \<and> jdepth (snd f) \<le> ?d"
  proof
    fix f
    assume f: "f \<in> set fs"
    then have x: "snd f \<in> set (map snd fs)" by simp
    from jdepth_obj[OF x] JObj.prems n have "jdepth (snd f) \<le> ?m" and "jdepth (snd f) \<le> ?d"
      by linarith+
    moreover have "snd f \<in> Basic_BNFs.snds f"
      by (rule snds.intros)
    ultimately show "gets_ok h nm Si S C ?m (snd f) \<and> jdepth (snd f) \<le> ?d"
      using JObj.IH[OF f] by simp
  qed
  have dl: "?d < jdepth (JObj fs)" by simp
  show ?case
    unfolding gets_ok_def
  proof (intro allI impI)
    fix i H g Pd
    assume r: "repr nm (set_option Si) Si C i (JObj fs)"
      and inv: "dec_inv h nm Si S C Pd H g" and pd: "dpend_ok nm Si C Pd (jdepth (JObj fs))"
    from r obtain pi krs where il: "i < length C" and ic: "C ! i = Some (KObject pi krs [])"
      and pl: "pi < length C" and pc: "C ! pi = Some (KBuiltin nm)"
      and dk: "distinct (map fst krs)" and ks: "map fst krs = map fst fs"
      and ch: "list_all2 (repr nm (set_option Si) Si C) (map snd krs) (map snd fs)"
      by (cases rule: repr.cases) auto
    show "\<exists>v H' g'. get h n H g i = Some (Inr (v, H', g')) \<and> dec_inv h nm Si S C Pd H' g' \<and>
        heap_ext H H' \<and> reads (objectPrototype h) (fst ` Pd) S H' v (JObj fs)"
    proof (cases "find_index (indexMap g) i")
      case (Some w)
      from get_hit_plain[OF Some inv pd r] inv heap_ext_refl[of H] show ?thesis
        by auto
    next
      case None
      let ?P = "objectPrototype h"
      let ?r = "length H"
      let ?Pd = "insert (Ref ?r, i) Pd"
      let ?H1 = "H @ [PlainObj ?P []]"
      from None dec_inv_found[OF inv] have si: "Si \<noteq> Some i" by auto
      from get_proto[OF host inv pl pc, where m = m'] obtain g0 where
        gp: "get h ?m H g pi = Some (Inr (?P, H, g0))" and inv0: "dec_inv h nm Si S C Pd H g0"
        and fi: "\<forall>k. k \<noteq> pi \<longrightarrow> find_index (indexMap g0) k = find_index (indexMap g) k"
        by blast
      from ic pc have "i \<noteq> pi" by auto
      with fi None have None0: "find_index (indexMap g0) i = None" by simp
      let ?g1 = "push_index g0 (Ref ?r) i"
      from ic have "C ! i \<noteq> Some (KBuiltin nm)" by simp
      with inv0 None0 have inv1: "dec_inv h nm Si S C ?Pd ?H1 ?g1"
        by (rule dec_inv_enter)
      from pd r dl have pd1: "dpend_ok nm Si C ?Pd ?d"
        by (rule dpend_ok_enter)
      have rp: "Ref ?r \<in> fst ` ?Pd" by simp
      have c0: "?H1 ! ?r = PlainObj ?P (plain_props [])"
        by (simp add: plain_props_Nil)
      from ks ch have ch': "list_all2 (\<lambda>kr f. fst kr = fst f \<and>
          repr nm (set_option Si) Si C (snd kr) (snd f)) krs fs"
        by (simp add: list_all2_pairs)
      have "fst ` set krs \<inter> fst ` set ([] :: (string \<times> val) list) = {}" by simp
      from deserializeRefs_plain[OF ch' el inv1 pd1 rp c0 dk this] obtain H' g' kvs where
        dr: "deserializeRefs h ?m ?H1 ?g1 ?r krs = Some (Inr (H', g'))"
        and inv': "dec_inv h nm Si S C ?Pd H' g'" and cha: "changed_at ?r ?H1 H'"
        and c': "H' ! ?r = PlainObj ?P (plain_props kvs)"
        and rs: "list_all2 (\<lambda>kv f. fst kv = fst f \<and>
            reads ?P (fst ` ?Pd) S H' (snd kv) (snd f)) kvs fs"
        by auto
      from None il ic gp dr dec_inv_content[OF inv] obj
      have ge: "get h n H g i = Some (Inr (Ref ?r, H', g'))"
        by (simp add: n Let_def deserializeProperties.simps)
      from changed_at_length[OF cha] have rl: "?r < length H'" by simp
      have nr: "Ref ?r \<notin> fst ` Pd"
        using dec_inv_pending[OF inv] by force
      from rs have kk: "map fst kvs = map fst fs"
        and rs': "list_all2 (reads ?P (fst ` ?Pd) S H') (map snd kvs) (map snd fs)"
        by (simp_all add: list_all2_pairs)
      from rs' have "list_all2 (reads ?P (fst ` Pd) S H') (map snd kvs) (map snd fs)"
        by (rule list_all2_mono) (erule reads_weaken, use dec_inv_S[OF inv] in auto)
      moreover from dk ks kk have "distinct (map fst kvs)" by simp
      ultimately have rd: "reads ?P (fst ` Pd) S H' (Ref ?r) (JObj fs)"
        using rl nr c' kk by (intro reads_obj[where kvs = kvs]) simp_all
      have "dec_inv h nm Si S C Pd H' g'"
      proof (rule dec_inv_leave[OF inv' _ si])
        show "\<exists>a. w = Ref a \<and> a < ?r" if "(w, k) \<in> Pd" for w k
          using inv that by (rule dec_inv_pending)
        show "s \<in> fst ` Pd" if "S = Some s" for s
          using inv that by (rule dec_inv_S)
        fix j
        assume "repr nm (set_option Si) Si C i j"
        with r have "j = JObj fs" by (rule repr_functional[rotated])
        with rd show "reads ?P (fst ` Pd) S H' (Ref ?r) j" by simp
      qed
      moreover note ge
      moreover have "heap_ext H H'"
      proof (rule heap_extI)
        from changed_at_length[OF cha] show "length H \<le> length H'" by simp
        fix a
        assume "a < length H"
        with cha show "H' ! a = H ! a"
          by (auto simp: changed_at_def nth_append)
      qed
      ultimately show ?thesis
        using rd by auto
    qed
  qed
next
  case JSelf
  show ?case
    unfolding gets_ok_def
  proof (intro allI impI)
    fix i H g Pd
    assume r: "repr nm (set_option Si) Si C i JSelf"
      and inv: "dec_inv h nm Si S C Pd H g" and pd: "dpend_ok nm Si C Pd (jdepth JSelf)"
    from r have "Si = Some i"
      by (cases rule: repr.cases) auto
    from dec_inv_found[OF inv this] obtain w where f: "find_index (indexMap g) i = Some w"
      by auto
    from get_hit_plain[OF f inv pd r] inv heap_ext_refl[of H]
    show "\<exists>v H' g'. get h n H g i = Some (Inr (v, H', g')) \<and> dec_inv h nm Si S C Pd H' g' \<and>
        heap_ext H H' \<and> reads (objectPrototype h) (fst ` Pd) S H' v JSelf"
      by auto
  qed
qed

subsection \<open>A value that contains itself\<close>

lemma reads_self_iff:
  "reads P B (Some s) H x j \<Longrightarrow> s \<in> B \<Longrightarrow> (x = s) = (j = JSelf)"
  by (auto dest: reads_valid elim: reads.cases)

lemma list_all2_self_positions:
  "list_all2 (reads P B (Some s) H) xs js \<Longrightarrow> s \<in> B \<Longrightarrow>
   map (\<lambda>x. x = s) xs = map (\<lambda>j. j = JSelf) js"
  by (induction rule: list_all2_induct) (auto dest: reads_self_iff)

lemma points_back_plain_props:
  "map (\<lambda>(key, p). case p of Data x w e c \<Rightarrow> x = v | Accessor gt st e c \<Rightarrow> False) (plain_props kvs) =
   map (\<lambda>x. x = v) (map snd kvs)"
  by (induction kvs) (auto simp: plain_props_def)

lemma points_back_root:
  assumes "reads_root P R H v j"
  shows "points_back H v = self_positions j"
  using assms
proof (cases rule: reads_root.cases)
  case (root_arr a vs js)
  from list_all2_self_positions[OF root_arr(6)] root_arr show ?thesis
    by (simp add: points_back_def)
next
  case (root_obj a kvs fs)
  from list_all2_self_positions[OF root_obj(8)]
  have "map (\<lambda>x. x = Ref a) (map snd kvs) = map (\<lambda>f. snd f = JSelf) fs"
    by (simp add: comp_def)
  with root_obj show ?thesis
    by (simp add: points_back_def points_back_plain_props)
qed

lemma enc_inv_root:
  assumes reg: "objectPrototype h \<in> registered h" and v: "Ref a \<notin> registered h"
  shows "enc_inv h nm (Some (Ref a)) (Some 0) H (reserve new_graph (Ref a))"
proof (rule enc_invI)
  have im: "indexMap (reserve new_graph (Ref a)) = [(Ref a, 0)]"
    and ca: "contentArray (reserve new_graph (Ref a)) = [None]"
    by (simp_all add: reserve_def new_graph_def)
  show "table_ok (reserve new_graph (Ref a))"
    by (simp add: table_ok_def im ca)
  show "repr nm (set_option (Some 0)) (Some 0) (contentArray (reserve new_graph (Ref a))) k j"
    if "(w, k) \<in> set (indexMap (reserve new_graph (Ref a)))"
      and "contentArray (reserve new_graph (Ref a)) ! k \<noteq> None" for w k j
    using that by (simp add: im ca)
  show "contentArray (reserve new_graph (Ref a)) ! k = Some (KBuiltin nm)"
    if "(objectPrototype h, k) \<in> set (indexMap (reserve new_graph (Ref a)))" for k
    using that reg v by (auto simp: im)
  show "Some 0 = Some k"
    if "(w, k) \<in> set (indexMap (reserve new_graph (Ref a)))" for w k
    using that by (simp add: im)
  show "find_element (indexMap (reserve new_graph (Ref a))) s \<noteq> None" if "Some (Ref a) = Some s" for s
    using that by (auto simp: im)
  show "s \<notin> registered h" if "Some (Ref a) = Some s" for s
    using that v by auto
  show "k < length (contentArray (reserve new_graph (Ref a)))" if "Some 0 = Some k" for k
    using that by (auto simp: ca)
qed

lemma pend_ok_root: "pend_ok h (Some v) H (reserve new_graph v) d"
  by (simp add: pend_ok_def reserve_def new_graph_def)

lemma avoid_root: "avoid h (Some v) = insert v (registered h)"
  by (simp add: avoid_def)

text \<open>Encoding a value that contains itself: index 0 stands for its shape.\<close>

lemma serialize_root:
  assumes h1: "getNameOfBuiltin h (objectPrototype h) = Some nm"
    and rr: "reads_root (objectPrototype h) (registered h) H v j"
    and c: "closure_free j" and d: "jdepth j \<le> n"
  shows "\<exists>g. serialize h n H v = Some (H, g) \<and> rootIndex g = 0 \<and> repr_root nm (contentArray g) j"
  using rr
proof (cases rule: reads_root.cases)
  case (root_arr a vs js)
  note v = \<open>v = Ref a\<close> and j = \<open>j = JArr js\<close>
  from d j obtain m where n: "n = Suc m" by (cases n) auto
  from h1 have reg: "objectPrototype h \<in> registered h"
    by (simp add: registered_def)
  let ?S = "Some (Ref a)"
  let ?g1 = "reserve new_graph (Ref a)"
  have el: "\<forall>x\<in>set js. adds_ok h nm ?S (Some 0) H m x \<and> jdepth x \<le> m"
  proof
    fix x
    assume x: "x \<in> set js"
    from jdepth_arr[OF x] d[unfolded j n] have "jdepth x \<le> m" by linarith
    moreover from c j x have "closure_free x"
      by (simp add: list_all_iff)
    ultimately show "adds_ok h nm ?S (Some 0) H m x \<and> jdepth x \<le> m"
      using adds_ok_plain[OF h1] by simp
  qed
  from root_arr have ch: "list_all2 (reads (objectPrototype h) (avoid h ?S) ?S H) vs js"
    by (simp add: avoid_root)
  from add_each_plain[OF ch el enc_inv_root[OF reg root_arr(4)] pend_ok_root] obtain "is" g3 where
    e: "add_each h m H ?g1 vs = Some (is, H, g3)" and st: "enc_step ?g1 g3"
    and rs: "list_all2 (repr nm (set_option (Some 0)) (Some 0) (contentArray g3)) is js"
    by blast
  have l0: "length (contentArray new_graph) = 0"
    by (simp add: new_graph_def)
  note cell = reserved_cell[OF st, unfolded l0]
  let ?g = "fill g3 0 (KArray is)"
  from root_arr e have "serialize_value h m H ?g1 (Ref a) = Some (KArray is, H, g3)"
    by (simp add: serialize_value.simps registered_def)
  then have "add h n H new_graph v = Some (0, H, ?g)"
    by (simp add: n v new_graph_def)
  then have s: "serialize h n H v = Some (H, ?g\<lparr>rootIndex := 0\<rparr>)"
    by (simp add: serialize_def)
  from rs have "list_all2 (repr nm {0} (Some 0) ((contentArray g3)[0 := Some (KArray is)])) is js"
    by (simp add: list_all2_mono[OF _ repr_fill[OF _ cell(2)]])
  with cell(3) have "repr_root nm (contentArray (?g\<lparr>rootIndex := 0\<rparr>)) (JArr js)"
    by (intro rroot_arr[where refs = "is"]) (simp_all add: fill_def)
  with s j show ?thesis by auto
next
  case (root_obj a kvs fs)
  note v = \<open>v = Ref a\<close> and j = \<open>j = JObj fs\<close>
  from jdepth_obj_ge[of fs] d j obtain m' where n: "n = Suc (Suc m')"
    by (cases n; cases "n - 1") auto
  let ?m = "Suc m'"
  from h1 have reg: "objectPrototype h \<in> registered h"
    by (simp add: registered_def)
  let ?S = "Some (Ref a)"
  let ?g1 = "reserve new_graph (Ref a)"
  have el: "\<forall>f\<in>set fs. adds_ok h nm ?S (Some 0) H ?m (snd f) \<and> jdepth (snd f) \<le> ?m"
  proof
    fix f
    assume f: "f \<in> set fs"
    then have x: "snd f \<in> set (map snd fs)" by simp
    from jdepth_obj[OF x] d[unfolded j n] have "jdepth (snd f) \<le> ?m" by linarith
    moreover from c j f have "closure_free (snd f)"
      by (simp add: list_all_iff)
    ultimately show "adds_ok h nm ?S (Some 0) H ?m (snd f) \<and> jdepth (snd f) \<le> ?m"
      using adds_ok_plain[OF h1] by simp
  qed
  note inv1 = enc_inv_root[OF reg root_obj(4), of nm H]
  from add_proto[OF h1 inv1, of m'] obtain pi g2 where
    ap: "add h ?m H ?g1 (objectPrototype h) = Some (pi, H, g2)"
    and inv2: "enc_inv h nm ?S (Some 0) H g2" and st2: "enc_step ?g1 g2"
    and pl: "pi < length (contentArray g2)"
    and pc: "contentArray g2 ! pi = Some (KBuiltin nm)"
    by blast
  from pend_ok_root st2 enc_inv_table[OF inv1] have pd2: "pend_ok h ?S H g2 ?m"
    by (rule pend_ok_step)
  from root_obj have ch: "list_all2 (\<lambda>kv f. fst kv = fst f \<and>
      reads (objectPrototype h) (avoid h ?S) ?S H (snd kv) (snd f)) kvs fs"
    by (simp add: avoid_root list_all2_pairs)
  from c j root_obj(7) have nc: "''__closure'' \<notin> fst ` set kvs"
    by (metis closure_free.simps(3) list.set_map)
  have "fst ` set kvs \<inter> fst ` set ([] :: srefs) = {}" by simp
  from serializeProperties_plain[OF ch el nc root_obj(6) this inv2 pd2, of "[]"] obtain krs g3 where
    sp: "serializeProperties h ?m H g2 (plain_props kvs) [] [] = Some (krs, [], H, g3)"
    and inv3: "enc_inv h nm ?S (Some 0) H g3" and st3: "enc_step g2 g3"
    and rs: "list_all2 (\<lambda>kr f. fst kr = fst f \<and>
        repr nm (set_option (Some 0)) (Some 0) (contentArray g3) (snd kr) (snd f)) krs fs"
    by auto
  from st2 st3 enc_inv_table[OF inv2] have st: "enc_step ?g1 g3"
    by (rule enc_step_trans)
  have l0: "length (contentArray new_graph) = 0"
    by (simp add: new_graph_def)
  note cell = reserved_cell[OF st, unfolded l0]
  let ?c = "KObject pi krs []"
  let ?g = "fill g3 0 ?c"
  from root_obj ap sp have "serialize_value h ?m H ?g1 (Ref a) = Some (?c, H, g3)"
    by (simp add: serialize_value.simps serializeObject.simps registered_def)
  then have "add h n H new_graph v = Some (0, H, ?g)"
    by (simp add: n v new_graph_def)
  then have s: "serialize h n H v = Some (H, ?g\<lparr>rootIndex := 0\<rparr>)"
    by (simp add: serialize_def)
  let ?C = "(contentArray g3)[0 := Some ?c]"
  from rs have kk: "map fst krs = map fst fs"
    and rs': "list_all2 (repr nm {0} (Some 0) (contentArray g3)) (map snd krs) (map snd fs)"
    by (simp_all add: list_all2_pairs)
  from rs' have rc: "list_all2 (repr nm {0} (Some 0) ?C) (map snd krs) (map snd fs)"
    by (rule list_all2_mono) (rule repr_fill[OF _ cell(2)])
  from pl enc_step_length[OF st3] have pl3: "pi < length (contentArray g3)"
    by simp
  from enc_step_nth[OF st3 pl] pc have pc3: "contentArray g3 ! pi = Some (KBuiltin nm)"
    by simp
  with cell(2) have "pi \<noteq> 0" by (cases "pi = 0") simp_all
  with pc3 have pc': "?C ! pi = Some (KBuiltin nm)" by simp
  from root_obj(6,7) kk have "distinct (map fst krs)" by simp
  with cell(3) pl3 pc' kk rc have "repr_root nm ?C (JObj fs)"
    by (intro rroot_obj[where pi = pi and krs = krs]) simp_all
  then have "repr_root nm (contentArray (?g\<lparr>rootIndex := 0\<rparr>)) (JObj fs)"
    by (simp add: fill_def)
  with s j show ?thesis by auto
qed

text \<open>Decoding a graph whose index 0 stands for a shape that contains itself.\<close>

lemma root_decode:
  assumes h2: "getBuiltinByName h nm = Some (objectPrototype h)"
    and obj: "objectPrototype h = Ref p0"
    and rr: "repr_root nm C j" and d: "jdepth j \<le> n"
  shows "\<exists>H' g'. get h n H \<lparr>indexMap = [], rootIndex = ri, contentArray = C\<rparr> 0 =
             Some (Inr (Ref (length H), H', g')) \<and>
           heap_ext H H' \<and> reads_root (objectPrototype h) {} H' (Ref (length H)) j"
  using rr
proof (cases rule: repr_root.cases)
  case (rroot_arr refs js)
  note j = \<open>j = JArr js\<close>
  from d j obtain m where n: "n = Suc m" by (cases n) auto
  let ?g0 = "\<lparr>indexMap = [], rootIndex = ri, contentArray = C\<rparr>"
  let ?r = "length H"
  let ?S = "Some (Ref ?r)"
  let ?Pd = "{(Ref ?r, 0 :: nat)}"
  let ?H1 = "H @ [ArrayObj []]"
  let ?g1 = "push_index ?g0 (Ref ?r) 0"
  have im: "indexMap ?g1 = [(Ref ?r, 0)]" and ca: "contentArray ?g1 = C"
    by (simp_all add: push_index_def)
  have inv1: "dec_inv h nm (Some 0) ?S C ?Pd ?H1 ?g1"
    by (rule dec_invI) (use rroot_arr in \<open>auto simp: im ca\<close>)
  have pd1: "dpend_ok nm (Some 0) C ?Pd m"
    by (simp add: dpend_ok_def)
  have el: "\<forall>x\<in>set js. gets_ok h nm (Some 0) ?S C m x \<and> jdepth x \<le> m"
  proof
    fix x
    assume x: "x \<in> set js"
    from jdepth_arr[OF x] d[unfolded j n] have "jdepth x \<le> m" by linarith
    then show "gets_ok h nm (Some 0) ?S C m x \<and> jdepth x \<le> m"
      using gets_ok_plain[OF h2 obj] by simp
  qed
  have rp: "Ref ?r \<in> fst ` ?Pd" by simp
  have c0: "?H1 ! ?r = ArrayObj []" by simp
  from rroot_arr have ch: "list_all2 (repr nm (set_option (Some 0)) (Some 0) C) refs js"
    by simp
  from get_refs_plain[OF ch el inv1 pd1 rp c0] obtain H' g' vs where
    gr: "get_refs h m ?H1 ?g1 ?r refs = Some (Inr (H', g'))"
    and cha: "changed_at ?r ?H1 H'" and c': "H' ! ?r = ArrayObj vs"
    and rs: "list_all2 (reads (objectPrototype h) (fst ` ?Pd) ?S H') vs js"
    by auto
  from rroot_arr gr have ge: "get h n H ?g0 0 = Some (Inr (Ref ?r, H', g'))"
    by (simp add: n Let_def)
  from changed_at_length[OF cha] have rl: "?r < length H'" by simp
  from rs have "list_all2 (reads (objectPrototype h) (insert (Ref ?r) {}) ?S H') vs js"
    by simp
  with rl c' have rd: "reads_root (objectPrototype h) {} H' (Ref ?r) (JArr js)"
    by (intro root_arr[where vs = vs]) simp_all
  have "heap_ext H H'"
  proof (rule heap_extI)
    from changed_at_length[OF cha] show "length H \<le> length H'" by simp
    fix a
    assume "a < length H"
    with cha show "H' ! a = H ! a"
      by (auto simp: changed_at_def nth_append)
  qed
  with ge rd j show ?thesis by blast
next
  case (rroot_obj pi krs fs)
  note j = \<open>j = JObj fs\<close>
  from jdepth_obj_ge[of fs] d j obtain m' where n: "n = Suc (Suc m')"
    by (cases n; cases "n - 1") auto
  let ?m = "Suc m'"
  let ?P = "objectPrototype h"
  let ?g0 = "\<lparr>indexMap = [], rootIndex = ri, contentArray = C\<rparr>"
  let ?gp = "push_index ?g0 ?P pi"
  let ?r = "length H"
  let ?S = "Some (Ref ?r)"
  let ?Pd = "{(Ref ?r, 0 :: nat)}"
  let ?H1 = "H @ [PlainObj ?P []]"
  let ?g1 = "push_index ?gp (Ref ?r) 0"
  from rroot_obj have p0: "pi \<noteq> 0" by (cases "pi = 0") simp_all
  have im: "indexMap ?g1 = [(?P, pi), (Ref ?r, 0)]" and ca: "contentArray ?g1 = C"
    by (simp_all add: push_index_def)
  from rroot_obj h2 have gp: "get h ?m H ?g0 pi = Some (Inr (?P, H, ?gp))"
    by simp
  have inv1: "dec_inv h nm (Some 0) ?S C ?Pd ?H1 ?g1"
  proof (rule dec_invI)
    show "contentArray ?g1 = C" by (rule ca)
    show "reads ?P (fst ` ?Pd) ?S ?H1 w j'"
      if "(w, k) \<in> set (indexMap ?g1)" and "(w, k) \<notin> ?Pd"
        and r: "repr nm (set_option (Some 0)) (Some 0) C k j'" for w k j'
    proof -
      from that have "k = pi" by (auto simp: im)
      with r rroot_obj p0 show ?thesis
        by (cases rule: repr.cases) auto
    qed
    show "?S = Some w \<and> (w, k) \<in> ?Pd" if "(w, k) \<in> set (indexMap ?g1)" and "Some 0 = Some k"
      for w k
      using that p0 by (auto simp: im)
    show "find_index (indexMap ?g1) k \<noteq> None" if "Some 0 = Some k" for k
      using that p0 by (auto simp: im)
    show "\<exists>a. w = Ref a \<and> a < length ?H1" if "(w, k) \<in> ?Pd" for w k
      using that by auto
    show "s \<in> fst ` ?Pd" if "?S = Some s" for s
      using that by auto
    show "w = ?P" if "(w, k) \<in> set (indexMap ?g1)" and "C ! k = Some (KBuiltin nm)" for w k
      using that rroot_obj by (auto simp: im)
  qed
  have pd1: "dpend_ok nm (Some 0) C ?Pd ?m"
    by (simp add: dpend_ok_def)
  have el: "\<forall>f\<in>set fs. gets_ok h nm (Some 0) ?S C ?m (snd f) \<and> jdepth (snd f) \<le> ?m"
  proof
    fix f
    assume f: "f \<in> set fs"
    then have x: "snd f \<in> set (map snd fs)" by simp
    from jdepth_obj[OF x] d[unfolded j n] have "jdepth (snd f) \<le> ?m" by linarith
    then show "gets_ok h nm (Some 0) ?S C ?m (snd f) \<and> jdepth (snd f) \<le> ?m"
      using gets_ok_plain[OF h2 obj] by simp
  qed
  have rp: "Ref ?r \<in> fst ` ?Pd" by simp
  have c0: "?H1 ! ?r = PlainObj ?P (plain_props [])"
    by (simp add: plain_props_Nil)
  from rroot_obj have ch: "list_all2 (\<lambda>kr f. fst kr = fst f \<and>
      repr nm (set_option (Some 0)) (Some 0) C (snd kr) (snd f)) krs fs"
    by (simp add: list_all2_pairs)
  have "fst ` set krs \<inter> fst ` set ([] :: (string \<times> val) list) = {}" by simp
  from deserializeRefs_plain[OF ch el inv1 pd1 rp c0 rroot_obj(6) this] obtain H' g' kvs where
    dr: "deserializeRefs h ?m ?H1 ?g1 ?r krs = Some (Inr (H', g'))"
    and cha: "changed_at ?r ?H1 H'"
    and c': "H' ! ?r = PlainObj ?P (plain_props kvs)"
    and rs: "list_all2 (\<lambda>kv f. fst kv = fst f \<and>
        reads ?P (fst ` ?Pd) ?S H' (snd kv) (snd f)) kvs fs"
    by auto
  from rroot_obj gp dr obj have ge: "get h n H ?g0 0 = Some (Inr (Ref ?r, H', g'))"
    by (simp add: n Let_def deserializeProperties.simps)
  from changed_at_length[OF cha] have rl: "?r < length H'" by simp
  from rs have kk: "map fst kvs = map fst fs"
    and rs': "list_all2 (reads ?P (insert (Ref ?r) {}) ?S H') (map snd kvs) (map snd fs)"
    by (simp_all add: list_all2_pairs)
  from rroot_obj(6,7) kk have "distinct (map fst kvs)" by simp
  with rl c' kk rs' have rd: "reads_root ?P {} H' (Ref ?r) (JObj fs)"
    by (intro root_obj[where kvs = kvs]) simp_all
  have "heap_ext H H'"
  proof (rule heap_extI)
    from changed_at_length[OF cha] show "length H \<le> length H'" by simp
    fix a
    assume "a < length H"
    with cha show "H' ! a = H ! a"
      by (auto simp: changed_at_def nth_append)
  qed
  with ge rd j show ?thesis by blast
qed

section \<open>Properties of the decoder's bookkeeping\<close>

text \<open>
  C4 (the code departs from the claim). Two references to one identity must decode to
  one identity. The encoder does give both the same index, but the decoder reconstructs
  the prototype of an object record before it registers the object. For
  \<open>p = {}; o = Object.create(p); p.instance = o\<close>, decoding \<open>o\<close> decodes \<open>p\<close> first, whose
  attribute \<open>instance\<close> asks for \<open>o\<close> again and builds a first copy (address 4); the outer
  call then builds a second copy (address 5) and returns it. The root and
  \<open>Object.getPrototypeOf(root).instance\<close> are different objects.
\<close>

theorem prototype_back_reference_is_duplicated:
  "(case roundtrip example_host 3 back_reference_heap (Ref 1) of
      Some (Inr (v, H', g')) \<Rightarrow>
        v = Ref 5 \<and> H' ! 5 = PlainObj (Ref 3) [] \<and>
        H' ! 3 = PlainObj (Ref 0) [(''instance'', Data (Ref 4) True True True)] \<and>
        indexMap g' = [(Ref 0, 2), (Ref 3, 1), (Ref 4, 0), (Ref 5, 0)]
    | _ \<Rightarrow> False)"
  by code_simp

text \<open>
  C5 (the code departs from the claim). An attribute that is writable, configurable and
  hidden from enumeration comes back read-only: the encoder never stores the flag
  \<open>writable\<close>, and \<open>Object.defineProperty\<close> takes an absent flag as false.
\<close>

theorem hidden_attribute_comes_back_read_only:
  "hidden_attr_heap ! 1 = PlainObj (Ref 0) [(''hidden'', Data (Prim (PNum 7)) True False True)] \<and>
   (case roundtrip example_host 3 hidden_attr_heap (Ref 1) of
      Some (Inr (v, H', g')) \<Rightarrow>
        v = Ref 3 \<and>
        H' ! 3 = PlainObj (Ref 0) [(''hidden'', Data (Prim (PNum 7)) False False True)]
    | _ \<Rightarrow> False)"
  by code_simp

text \<open>
  C6 (the code departs from the claim). A field of a descriptor is reconstructed only
  when the stored index is truthy. Index 0 is the root: for an object whose hidden
  attribute \<open>self\<close> points back to the object, the decoder installs the number 0 as the
  value of \<open>self\<close>, not the reconstructed object (address 2).
\<close>

theorem descriptor_index_zero_is_installed_raw:
  "(case roundtrip example_host 3 hidden_self_heap (Ref 1) of
      Some (Inr (v, H', g')) \<Rightarrow>
        v = Ref 2 \<and>
        H' ! 2 = PlainObj (Ref 0) [(''self'', Data (Prim (PNum 0)) False False True)]
    | _ \<Rightarrow> False)"
  by code_simp

lemma parse_field_zero: "parse_field h n H g (Some 0) = Some (Inr (Some (Prim (PNum 0)), H, g))"
  by simp

text \<open>
  C7 (the code departs from the claim). A failed decode must yield no usable partial
  value. For the array \<open>[5, <builtin Missing>]\<close> the first access of the root raises the
  error that names the unknown builtin, as the claim says; but the array was registered
  in the table of the graph before its elements were decoded, and the throw removes
  nothing. The second access of the root of the same graph finds that entry and returns
  the half-built array \<open>[5]\<close> without any error.
\<close>

theorem failed_decode_leaves_a_partial_value:
  "root example_host 3 [] (fromJSON unknown_builtin_wire) =
     Some (Inl (UnknownBuiltin ''Missing'', [ArrayObj [Prim (PNum 5)]],
       \<lparr>indexMap = [(Ref 0, 0), (Prim (PNum 5), 1)], rootIndex = 0,
        contentArray =
          [Some (KArray [1, 2]), Some (KPrimitive (PNum 5)), Some (KBuiltin ''Missing'')]\<rparr>)) \<and>
   root example_host 3 [ArrayObj [Prim (PNum 5)]]
       \<lparr>indexMap = [(Ref 0, 0), (Prim (PNum 5), 1)], rootIndex = 0,
        contentArray =
          [Some (KArray [1, 2]), Some (KPrimitive (PNum 5)), Some (KBuiltin ''Missing'')]\<rparr> =
     Some (Inr (Ref 0, [ArrayObj [Prim (PNum 5)]],
       \<lparr>indexMap = [(Ref 0, 0), (Prim (PNum 5), 1)], rootIndex = 0,
        contentArray =
          [Some (KArray [1, 2]), Some (KPrimitive (PNum 5)), Some (KBuiltin ''Missing'')]\<rparr>))"
  by code_simp

text \<open>
  C9, as stated, fails: the table is a field of the graph. The graph that \<open>serialize\<close>
  returns still holds the table of the encoder, so reading its root returns the encoded
  value itself (here without any decoding, at depth 0); and reading the root of a graph
  that came over the wire changes the graph.
\<close>

theorem table_is_shared_with_the_encoder:
  "(case serialize example_host 3 hidden_attr_heap (Ref 2) of
      Some (H1, g) \<Rightarrow>
        indexMap g = [(Ref 2, 0), (Ref 1, 1), (Ref 0, 2), (Prim (PNum 7), 3)] \<and>
        root example_host 0 H1 g = Some (Inr (Ref 2, H1, g)) \<and>
        (case root example_host 3 H1 (fromJSON (toJSON g)) of
           Some (Inr (v, H2, g2)) \<Rightarrow>
             v = Ref 3 \<and> indexMap (fromJSON (toJSON g)) = [] \<and>
             indexMap g2 = [(Ref 3, 0), (Ref 0, 2), (Ref 4, 1), (Prim (PNum 7), 3)]
         | _ \<Rightarrow> False)
    | None \<Rightarrow> False)"
  by code_simp

text \<open>
  C9, amended. The table is a field of the graph, shared by every access of the root of
  that graph and by the encoder that built it: the root of a graph returned by
  \<open>serialize\<close> is the encoded value itself, found in the table; a graph made by
  \<open>fromJSON\<close> starts with an empty table; an access of the root that returns a value
  leaves the root index and the content array as they were and only appends to the
  table, which afterwards holds an entry for the root, so that every later access
  returns that entry and changes nothing.
\<close>

theorem root_uses_the_table_of_the_graph:
  "(serialize h n H v = Some (H1, g1) \<longrightarrow> root h m H1 g1 = Some (Inr (v, H1, g1))) \<and>
   indexMap (fromJSON json) = [] \<and>
   (root h n H g = Some (Inr (v, H', g')) \<longrightarrow>
      contentArray g' = contentArray g \<and> rootIndex g' = rootIndex g \<and>
      take (length (indexMap g)) (indexMap g') = indexMap g \<and>
      (\<exists>w. \<forall>k. root h k H' g' = Some (Inr (w, H', g'))))"
proof (intro conjI impI)
  assume "serialize h n H v = Some (H1, g1)"
  then obtain i g0 where a: "add h n H new_graph v = Some (i, H1, g0)"
    and g: "g1 = g0\<lparr>rootIndex := int i\<rparr>"
    by (auto simp: serialize_def split: option.splits)
  have "table_ok new_graph"
    by (simp add: table_ok_def new_graph_def)
  with add_sound[OF a] have "find_index (indexMap g0) i = Some v"
    by (rule adds_registered)
  with g show "root h m H1 g1 = Some (Inr (v, H1, g1))"
    by (simp add: root_def get_registered)
next
  show "indexMap (fromJSON json) = []"
    by (simp add: fromJSON_def new_graph_def)
next
  assume r: "root h n H g = Some (Inr (v, H', g'))"
  then have nn: "\<not> rootIndex g < 0" and "get h n H g (nat (rootIndex g)) = Some (Inr (v, H', g'))"
    by (auto simp: root_def split: if_splits)
  then have run: "gets h H g (nat (rootIndex g)) v H' g'"
    by (auto intro: get_sound)
  then have gr: "grows h g g'"
    by (rule runs_grow(1))
  then show "contentArray g' = contentArray g" "rootIndex g' = rootIndex g"
    "take (length (indexMap g)) (indexMap g') = indexMap g"
    by (simp_all add: grows_def)
  from gets_registered[OF run] obtain w where
    "find_index (indexMap g') (nat (rootIndex g)) = Some w"
    by auto
  with gr nn have "\<forall>k. root h k H' g' = Some (Inr (w, H', g'))"
    by (simp add: root_def get_registered grows_def)
  then show "\<exists>w. \<forall>k. root h k H' g' = Some (Inr (w, H', g'))" ..
qed

theorem root_uses_the_table_of_the_graph_witness:
  "root example_host 0 hidden_attr_heap
     \<lparr>indexMap = [(Ref 2, 0), (Ref 1, 1), (Ref 0, 2), (Prim (PNum 7), 3)], rootIndex = 0,
      contentArray =
        [Some (KArray [1]),
         Some (KObject 2 []
           [(''hidden'', \<lparr>sd_get = None, sd_set = None, sd_value = Some 3,
              sd_configurable = True, sd_writable = None, sd_enumerable = False\<rparr>)]),
         Some (KBuiltin ''Object.prototype''),
         Some (KPrimitive (PNum 7))]\<rparr> =
   Some (Inr (Ref 2, hidden_attr_heap,
     \<lparr>indexMap = [(Ref 2, 0), (Ref 1, 1), (Ref 0, 2), (Prim (PNum 7), 3)], rootIndex = 0,
      contentArray =
        [Some (KArray [1]),
         Some (KObject 2 []
           [(''hidden'', \<lparr>sd_get = None, sd_set = None, sd_value = Some 3,
              sd_configurable = True, sd_writable = None, sd_enumerable = False\<rparr>)]),
         Some (KBuiltin ''Object.prototype''),
         Some (KPrimitive (PNum 7))]\<rparr>)) \<and>
   (\<exists>w. \<forall>k. root example_host k [ArrayObj [Prim (PNum 5), Prim (PNum 5)]]
      \<lparr>indexMap = [(Ref 0, 0), (Prim (PNum 5), 1)], rootIndex = 0,
       contentArray = [Some (KArray [1, 1]), Some (KPrimitive (PNum 5))]\<rparr> =
     Some (Inr (w, [ArrayObj [Prim (PNum 5), Prim (PNum 5)]],
      \<lparr>indexMap = [(Ref 0, 0), (Prim (PNum 5), 1)], rootIndex = 0,
       contentArray = [Some (KArray [1, 1]), Some (KPrimitive (PNum 5))]\<rparr>)))"
proof -
  have s: "serialize example_host 3 hidden_attr_heap (Ref 2) =
     Some (hidden_attr_heap,
       \<lparr>indexMap = [(Ref 2, 0), (Ref 1, 1), (Ref 0, 2), (Prim (PNum 7), 3)], rootIndex = 0,
        contentArray =
          [Some (KArray [1]),
           Some (KObject 2 []
             [(''hidden'', \<lparr>sd_get = None, sd_set = None, sd_value = Some 3,
                sd_configurable = True, sd_writable = None, sd_enumerable = False\<rparr>)]),
           Some (KBuiltin ''Object.prototype''),
           Some (KPrimitive (PNum 7))]\<rparr>)"
    by code_simp
  have r: "root example_host 2 []
      \<lparr>indexMap = [], rootIndex = 0,
       contentArray = [Some (KArray [1, 1]), Some (KPrimitive (PNum 5))]\<rparr> =
     Some (Inr (Ref 0, [ArrayObj [Prim (PNum 5), Prim (PNum 5)]],
      \<lparr>indexMap = [(Ref 0, 0), (Prim (PNum 5), 1)], rootIndex = 0,
       contentArray = [Some (KArray [1, 1]), Some (KPrimitive (PNum 5))]\<rparr>))"
    by code_simp
  note t = root_uses_the_table_of_the_graph
  from s t[where h = example_host and n = 3 and H = hidden_attr_heap and v = "Ref 2"
      and ?H1.0 = hidden_attr_heap and m = 0]
  have 1: "root example_host 0 hidden_attr_heap
     \<lparr>indexMap = [(Ref 2, 0), (Ref 1, 1), (Ref 0, 2), (Prim (PNum 7), 3)], rootIndex = 0,
      contentArray =
        [Some (KArray [1]),
         Some (KObject 2 []
           [(''hidden'', \<lparr>sd_get = None, sd_set = None, sd_value = Some 3,
              sd_configurable = True, sd_writable = None, sd_enumerable = False\<rparr>)]),
         Some (KBuiltin ''Object.prototype''),
         Some (KPrimitive (PNum 7))]\<rparr> =
   Some (Inr (Ref 2, hidden_attr_heap,
     \<lparr>indexMap = [(Ref 2, 0), (Ref 1, 1), (Ref 0, 2), (Prim (PNum 7), 3)], rootIndex = 0,
      contentArray =
        [Some (KArray [1]),
         Some (KObject 2 []
           [(''hidden'', \<lparr>sd_get = None, sd_set = None, sd_value = Some 3,
              sd_configurable = True, sd_writable = None, sd_enumerable = False\<rparr>)]),
         Some (KBuiltin ''Object.prototype''),
         Some (KPrimitive (PNum 7))]\<rparr>))"
    by blast
  from r t[where h = example_host and n = 2 and H = "[]" and v = "Ref 0"
      and H' = "[ArrayObj [Prim (PNum 5), Prim (PNum 5)]]"]
  have 2: "\<exists>w. \<forall>k. root example_host k [ArrayObj [Prim (PNum 5), Prim (PNum 5)]]
      \<lparr>indexMap = [(Ref 0, 0), (Prim (PNum 5), 1)], rootIndex = 0,
       contentArray = [Some (KArray [1, 1]), Some (KPrimitive (PNum 5))]\<rparr> =
     Some (Inr (w, [ArrayObj [Prim (PNum 5), Prim (PNum 5)]],
      \<lparr>indexMap = [(Ref 0, 0), (Prim (PNum 5), 1)], rootIndex = 0,
       contentArray = [Some (KArray [1, 1]), Some (KPrimitive (PNum 5))]\<rparr>))"
    by blast
  from 1 2 show ?thesis by blast
qed

section \<open>Encoding is total\<close>

text \<open>
  C8. \<open>serialize\<close> returns a graph for every value of a closed store, whatever the
  registry answers; the model of the encoder has no path that throws. The depth of
  nested calls of \<open>add\<close> that it needs is bounded by the identities it can meet: the
  objects of the store and one snapshot object for each callable, and one more call for
  a primitive at the bottom.
\<close>

theorem serialize_total:
  "closed_heap h H \<Longrightarrow> valid_val H v \<Longrightarrow> identities H < n \<Longrightarrow>
   \<exists>H' g. serialize h n H v = Some (H', g)"
proof -
  assume "closed_heap h H" "valid_val H v" "identities H < n"
  then have "\<exists>r. add h n H new_graph v = Some r"
    by (intro add_total) (simp_all add: pot_new_graph)
  then show ?thesis
    by (auto simp: serialize_def)
qed

theorem serialize_total_witness:
  "closed_heap example_host closure_heap \<and> valid_val closure_heap (Ref 1) \<and>
   identities closure_heap < 4 \<and>
   (\<exists>H' g. serialize example_host 4 closure_heap (Ref 1) = Some (H', g))"
proof -
  have 1: "closed_heap example_host closure_heap"
    by code_simp
  have 2: "valid_val closure_heap (Ref 1)"
    by code_simp
  have 3: "identities closure_heap < 4"
    by code_simp
  from 1 2 3 serialize_total[OF 1 2 3] show ?thesis
    by blast
qed

section \<open>Round trips of plain data\<close>

lemma knows_object_prototypeD:
  assumes "knows_object_prototype h"
  obtains p0 nm where "objectPrototype h = Ref p0"
    and "getNameOfBuiltin h (objectPrototype h) = Some nm"
    and "getBuiltinByName h nm = Some (objectPrototype h)"
  using assms by (auto simp: knows_object_prototype_def split: val.splits option.splits)

lemma adds_okD:
  "adds_ok h nm S Si H m j \<Longrightarrow> reads (objectPrototype h) (avoid h S) S H v j \<Longrightarrow>
   enc_inv h nm S Si H g \<Longrightarrow> pend_ok h S H g (jdepth j) \<Longrightarrow>
   \<exists>i g'. add h m H g v = Some (i, H, g') \<and> enc_inv h nm S Si H g' \<and> enc_step g g' \<and>
     repr nm (set_option Si) Si (contentArray g') i j"
  by (simp add: adds_ok_def)

lemma gets_okD:
  "gets_ok h nm Si S C m j \<Longrightarrow> repr nm (set_option Si) Si C i j \<Longrightarrow>
   dec_inv h nm Si S C Pd H g \<Longrightarrow> dpend_ok nm Si C Pd (jdepth j) \<Longrightarrow>
   \<exists>v H' g'. get h m H g i = Some (Inr (v, H', g')) \<and> dec_inv h nm Si S C Pd H' g' \<and>
     heap_ext H H' \<and> reads (objectPrototype h) (fst ` Pd) S H' v j"
  by (simp add: gets_ok_def)

lemma enc_inv_new: "enc_inv h nm None None H new_graph"
  by (rule enc_invI) (simp_all add: new_graph_def table_ok_def)

lemma pend_ok_new: "pend_ok h S H new_graph d"
  by (simp add: pend_ok_def new_graph_def)

lemma dec_inv_wire:
  "dec_inv h nm None None C {} H \<lparr>indexMap = [], rootIndex = r, contentArray = C\<rparr>"
  by (rule dec_invI) simp_all

lemma dpend_ok_empty: "dpend_ok nm Si C {} d"
  by (simp add: dpend_ok_def)

text \<open>
  C1, as stated, fails: the encoder skips every own attribute named \<open>__closure\<close>, of any
  object. The object \<open>{__closure: 1}\<close> is built from a number and a plain object only,
  and it comes back as \<open>{}\<close>.
\<close>

theorem reserved_name_is_dropped:
  "reserved_name_heap ! 1 =
     PlainObj (Ref 0) [(''__closure'', Data (Prim (PNum 1)) True True True)] \<and>
   (case roundtrip example_host 3 reserved_name_heap (Ref 1) of
      Some (Inr (v, H', g')) \<Rightarrow> v = Ref 2 \<and> H' ! 2 = PlainObj (Ref 0) []
    | _ \<Rightarrow> False)"
  by code_simp

text \<open>
  C1, amended. Take a value built from primitives, arrays and object literals, without
  cycles (parts may be shared), in which no part is a builtin of the registry and no
  attribute is named \<open>__closure\<close>; let the registry know the prototype of object literals,
  let that prototype be as in an untouched runtime (no enumerable attribute, no further
  prototype), and let every attribute name be one that an assignment creates as an own
  attribute. Then encoding the value, passing the graph through \<open>toJSON\<close> and \<open>fromJSON\<close>
  and reading the root returns, at the depth of the shape, a value of the same shape; the
  store only grew, and the original still has its shape. (The last two conditions keep
  the store where assignment and enumeration, which the model takes to look at own
  attributes only, do so in the language too; the proof does not need them.)
\<close>

theorem plain_data_round_trip:
  assumes k: "knows_object_prototype h"
    and r: "reads (objectPrototype h) (registered h) None H v j"
    and c: "closure_free j"
    and pp: "plain_prototype H (objectPrototype h)"
    and a: "all_names (creates_own H (objectPrototype h)) j"
    and d: "jdepth j \<le> n"
  shows "\<exists>v' H' g'. roundtrip h n H v = Some (Inr (v', H', g')) \<and> heap_ext H H' \<and>
           reads (objectPrototype h) {} None H' v' j \<and>
           reads (objectPrototype h) {} None H' v j"
proof -
  from k obtain p0 nm where obj: "objectPrototype h = Ref p0"
    and h1: "getNameOfBuiltin h (objectPrototype h) = Some nm"
    and h2: "getBuiltinByName h nm = Some (objectPrototype h)"
    by (rule knows_object_prototypeD)
  from r have r': "reads (objectPrototype h) (avoid h None) None H v j"
    by (simp add: avoid_def)
  have "adds_ok h nm None None H n j"
    using h1 c d by (rule adds_ok_plain)
  from adds_okD[OF this r' enc_inv_new pend_ok_new]
  obtain i g1 where ad: "add h n H new_graph v = Some (i, H, g1)"
    and rp: "repr nm {} None (contentArray g1) i j"
    by auto
  let ?g0 = "\<lparr>indexMap = [], rootIndex = int i, contentArray = contentArray g1\<rparr>"
  from ad have s: "serialize h n H v = Some (H, g1\<lparr>rootIndex := int i\<rparr>)"
    by (simp add: serialize_def)
  have w: "fromJSON (toJSON (g1\<lparr>rootIndex := int i\<rparr>)) = ?g0"
    by (simp add: fromJSON_def toJSON_def new_graph_def)
  have "gets_ok h nm None None (contentArray g1) n j"
    using h2 obj d by (rule gets_ok_plain)
  from gets_okD[OF this _ dec_inv_wire dpend_ok_empty, of i H "int i"] rp
  obtain v' H' g' where ge: "get h n H ?g0 i = Some (Inr (v', H', g'))"
    and e: "heap_ext H H'" and rv: "reads (objectPrototype h) {} None H' v' j"
    by auto
  from s w ge have "roundtrip h n H v = Some (Inr (v', H', g'))"
    by (simp add: roundtrip_def root_def)
  moreover from r e have "reads (objectPrototype h) (registered h) None H' v j"
    by (rule reads_ext)
  then have "reads (objectPrototype h) {} None H' v j"
    by (rule reads_weaken) simp_all
  ultimately show ?thesis
    using e rv by blast
qed

theorem plain_data_round_trip_witness:
  "\<exists>v' H' g'. roundtrip example_host 3 nested_heap (Ref 1) = Some (Inr (v', H', g')) \<and>
     heap_ext nested_heap H' \<and>
     reads (Ref 0) {} None H' v'
       (JObj [(''a'', JPrim (PNum 1)), (''b'', JArr [JPrim (PStr ''x''), JPrim PNull]),
              (''c'', JArr [JPrim (PStr ''x''), JPrim PNull])]) \<and>
     reads (Ref 0) {} None H' (Ref 1)
       (JObj [(''a'', JPrim (PNum 1)), (''b'', JArr [JPrim (PStr ''x''), JPrim PNull]),
              (''c'', JArr [JPrim (PStr ''x''), JPrim PNull])])"
proof -
  let ?j = "JObj [(''a'', JPrim (PNum 1)), (''b'', JArr [JPrim (PStr ''x''), JPrim PNull]),
              (''c'', JArr [JPrim (PStr ''x''), JPrim PNull])]"
  have p: "objectPrototype example_host = Ref 0"
    by (simp add: example_host_def)
  have reg: "registered example_host = {Ref 0}"
    by (auto simp: registered_def example_host_def)
  have k: "knows_object_prototype example_host"
    by (simp add: knows_object_prototype_def example_host_def)
  have arr: "reads (Ref 0) {Ref 0} None nested_heap (Ref 2) (JArr [JPrim (PStr ''x''), JPrim PNull])"
  proof (rule reads_arr[where vs = "[Prim (PStr ''x''), Prim PNull]"])
    show "2 < length nested_heap" by (simp add: nested_heap_def)
    show "Ref 2 \<notin> {Ref 0}" by simp
    show "nested_heap ! 2 = ArrayObj [Prim (PStr ''x''), Prim PNull]"
      by (simp add: nested_heap_def)
    show "list_all2 (reads (Ref 0) {Ref 0} None nested_heap) [Prim (PStr ''x''), Prim PNull]
        [JPrim (PStr ''x''), JPrim PNull]"
      by (simp add: reads_prim)
  qed
  have r: "reads (objectPrototype example_host) (registered example_host) None nested_heap (Ref 1) ?j"
    unfolding p reg
  proof (rule reads_obj[where kvs = "[(''a'', Prim (PNum 1)), (''b'', Ref 2), (''c'', Ref 2)]"])
    show "1 < length nested_heap" by (simp add: nested_heap_def)
    show "Ref 1 \<notin> {Ref 0}" by simp
    show "nested_heap ! 1 =
        PlainObj (Ref 0) (plain_props [(''a'', Prim (PNum 1)), (''b'', Ref 2), (''c'', Ref 2)])"
      by (simp add: nested_heap_def plain_props_def)
    show "list_all2 (reads (Ref 0) {Ref 0} None nested_heap)
        (map snd [(''a'', Prim (PNum 1)), (''b'', Ref 2), (''c'', Ref 2)])
        (map snd [(''a'', JPrim (PNum 1)), (''b'', JArr [JPrim (PStr ''x''), JPrim PNull]),
              (''c'', JArr [JPrim (PStr ''x''), JPrim PNull])])"
      by (simp add: reads_prim arr)
  qed simp_all
  have c: "closure_free ?j"
    by simp
  have pp: "plain_prototype nested_heap (objectPrototype example_host)"
    by (simp add: p plain_prototype_def nested_heap_def)
  have a: "all_names (creates_own nested_heap (objectPrototype example_host)) ?j"
    by (simp add: p creates_own_def nested_heap_def)
  have d: "jdepth ?j \<le> 3"
    by simp
  from plain_data_round_trip[OF k r c pp a d] show ?thesis
    unfolding p .
qed

section \<open>Values that contain themselves\<close>

text \<open>
  C3, as stated, fails for an own attribute that the encoder skips: with
  \<open>o = {}; o.__closure = o\<close> both directions return, but the attribute is not encoded and
  the reconstructed object is \<open>{}\<close>, which does not point back to itself.
\<close>

theorem reserved_name_self_reference_is_lost:
  "points_back reserved_self_heap (Ref 1) = [True] \<and>
   (case roundtrip example_host 3 reserved_self_heap (Ref 1) of
      Some (Inr (v, H', g')) \<Rightarrow>
        v = Ref 2 \<and> H' ! 2 = PlainObj (Ref 0) [] \<and> points_back H' v = []
    | _ \<Rightarrow> False)"
  by code_simp

text \<open>
  C3, amended. Take an array, or an object literal with plain attributes, whose elements
  or attributes are the value itself or plain data that may contain the value again (and
  no other cycle), where no attribute is named \<open>__closure\<close> and every attribute name is
  one that an assignment creates as an own attribute; let the registry know the
  prototype of object literals, which is as in an untouched runtime. Then \<open>serialize\<close>
  and the decoding of the root both return, at the depth of the shape, and the
  reconstructed value has the same shape: it is itself wherever the original is itself,
  at the top (\<open>points_back\<close>) and inside.
\<close>

theorem self_reference_round_trip:
  assumes k: "knows_object_prototype h"
    and rr: "reads_root (objectPrototype h) (registered h) H v j"
    and c: "closure_free j"
    and pp: "plain_prototype H (objectPrototype h)"
    and a: "all_names (creates_own H (objectPrototype h)) j"
    and d: "jdepth j \<le> n"
  shows "\<exists>v' H' g'. roundtrip h n H v = Some (Inr (v', H', g')) \<and> heap_ext H H' \<and>
           reads_root (objectPrototype h) {} H' v' j \<and>
           points_back H' v' = points_back H v"
proof -
  from k obtain p0 nm where obj: "objectPrototype h = Ref p0"
    and h1: "getNameOfBuiltin h (objectPrototype h) = Some nm"
    and h2: "getBuiltinByName h nm = Some (objectPrototype h)"
    by (rule knows_object_prototypeD)
  from serialize_root[OF h1 rr c d] obtain g where s: "serialize h n H v = Some (H, g)"
    and ri: "rootIndex g = 0" and rp: "repr_root nm (contentArray g) j"
    by blast
  let ?g0 = "\<lparr>indexMap = [], rootIndex = 0, contentArray = contentArray g\<rparr>"
  from ri have w: "fromJSON (toJSON g) = ?g0"
    by (simp add: fromJSON_def toJSON_def new_graph_def)
  from root_decode[OF h2 obj rp d, of H 0] obtain H' g' where
    ge: "get h n H ?g0 0 = Some (Inr (Ref (length H), H', g'))"
    and e: "heap_ext H H'"
    and rd: "reads_root (objectPrototype h) {} H' (Ref (length H)) j"
    by blast
  from s w ge have "roundtrip h n H v = Some (Inr (Ref (length H), H', g'))"
    by (simp add: roundtrip_def root_def)
  moreover from points_back_root[OF rd] points_back_root[OF rr]
  have "points_back H' (Ref (length H)) = points_back H v"
    by simp
  ultimately show ?thesis
    using e rd by blast
qed

theorem self_reference_round_trip_witness:
  "points_back self_array_heap (Ref 1) = [False, True, False] \<and>
   (\<exists>v' H' g'. roundtrip example_host 3 self_array_heap (Ref 1) = Some (Inr (v', H', g')) \<and>
      heap_ext self_array_heap H' \<and>
      reads_root (Ref 0) {} H' v' (JArr [JPrim (PNum 7), JSelf, JObj [(''k'', JSelf)]]) \<and>
      points_back H' v' = points_back self_array_heap (Ref 1))"
proof -
  let ?j = "JArr [JPrim (PNum 7), JSelf, JObj [(''k'', JSelf)]]"
  let ?B = "insert (Ref 1) {Ref 0}"
  have p: "objectPrototype example_host = Ref 0"
    by (simp add: example_host_def)
  have reg: "registered example_host = {Ref 0}"
    by (auto simp: registered_def example_host_def)
  have k: "knows_object_prototype example_host"
    by (simp add: knows_object_prototype_def example_host_def)
  have self: "reads (Ref 0) ?B (Some (Ref 1)) self_array_heap (Ref 1) JSelf"
    by (rule reads_self) simp_all
  have ob: "reads (Ref 0) ?B (Some (Ref 1)) self_array_heap (Ref 2) (JObj [(''k'', JSelf)])"
  proof (rule reads_obj[where kvs = "[(''k'', Ref 1)]"])
    show "2 < length self_array_heap" by (simp add: self_array_heap_def)
    show "Ref 2 \<notin> ?B" by simp
    show "self_array_heap ! 2 = PlainObj (Ref 0) (plain_props [(''k'', Ref 1)])"
      by (simp add: self_array_heap_def plain_props_def)
    show "list_all2 (reads (Ref 0) ?B (Some (Ref 1)) self_array_heap)
        (map snd [(''k'', Ref 1)]) (map snd [(''k'', JSelf)])"
      using self by simp
  qed simp_all
  have rr: "reads_root (objectPrototype example_host) (registered example_host) self_array_heap
      (Ref 1) ?j"
    unfolding p reg
  proof (rule root_arr[where vs = "[Prim (PNum 7), Ref 1, Ref 2]"])
    show "1 < length self_array_heap" by (simp add: self_array_heap_def)
    show "Ref 1 \<notin> {Ref 0}" by simp
    show "self_array_heap ! 1 = ArrayObj [Prim (PNum 7), Ref 1, Ref 2]"
      by (simp add: self_array_heap_def)
    show "list_all2 (reads (Ref 0) ?B (Some (Ref 1)) self_array_heap)
        [Prim (PNum 7), Ref 1, Ref 2] [JPrim (PNum 7), JSelf, JObj [(''k'', JSelf)]]"
      using self ob by (simp add: reads_prim)
  qed
  have c: "closure_free ?j"
    by simp
  have pp: "plain_prototype self_array_heap (objectPrototype example_host)"
    by (simp add: p plain_prototype_def self_array_heap_def)
  have a: "all_names (creates_own self_array_heap (objectPrototype example_host)) ?j"
    by (simp add: p creates_own_def self_array_heap_def)
  have d: "jdepth ?j \<le> 3"
    by simp
  have pb: "points_back self_array_heap (Ref 1) = [False, True, False]"
    by (simp add: points_back_def self_array_heap_def)
  from self_reference_round_trip[OF k rr c pp a d] pb show ?thesis
    unfolding p by (rule conjI[rotated])
qed

end
